theory Spec2Isabelle
  imports Complex_Main "HOL-Library.Sublist"
begin

section \<open>Python values and errors\<close>

text \<open>
  A Python \<open>str\<close> is a sequence of code points. It is modelled as a \<open>string\<close>, one
  \<open>char\<close> per code point (so code points below 256), and \<open>length\<close> is Python's
  \<open>len\<close>.

  \<open>json\<close> is the type of the objects \<open>json.loads\<close> returns. Python compares dictionary
  keys with \<open>==\<close>, which identifies \<open>True\<close> with \<open>1\<close> and \<open>1\<close> with \<open>1.0\<close>; numbers
  (and the booleans among them, \<open>bool\<close> being a subclass of \<open>int\<close>) are therefore kept
  by their numeric value, and equality of hashable \<open>json\<close> values is Python's \<open>==\<close>.
  A JSON object is the list of its members in document order, each key once.
\<close>

datatype pynum = Finite rat | PosInf | NegInf | NaN

datatype json =
    JNull
  | JNum pynum
  | JStr string
  | JArr "json list"
  | JObj "(string \<times> json) list"

datatype error =
    ValueError
  | IndexError
  | KeyError json
  | TypeError
  | JSONDecodeError
  | UnicodeDecodeError
  | FileNotFoundError
  | CalledProcessError int
  | ServiceError string

text \<open>Sequencing of computations that may raise: the first error is the result.\<close>

definition bindE :: "error + 'a \<Rightarrow> ('a \<Rightarrow> error + 'b) \<Rightarrow> error + 'b" where
  "bindE m f = (case m of Inl e \<Rightarrow> Inl e | Inr x \<Rightarrow> f x)"

text \<open>\<open>xs[i]\<close> for an index \<open>i \<ge> 0\<close>: out of range is IndexError.\<close>

definition getitem :: "'a list \<Rightarrow> nat \<Rightarrow> error + 'a" where
  "getitem xs i = (if i < length xs then Inr (xs ! i) else Inl IndexError)"

section \<open>String operations of the Python library\<close>

text \<open>\<open>sub in s\<close>: some position of \<open>s\<close> starts with \<open>sub\<close>.\<close>

fun str_contains :: "string \<Rightarrow> string \<Rightarrow> bool" where
  "str_contains sub [] = (sub = [])"
| "str_contains sub (c # cs) = (prefix sub (c # cs) \<or> str_contains sub cs)"

text \<open>
  \<open>s.split(sep)\<close>: scan from the left; at the leftmost occurrence of \<open>sep\<close> close the
  current part and continue behind the occurrence. The part after the last occurrence
  closes the list. An empty separator is ValueError.
\<close>

fun split_loop :: "string \<Rightarrow> string \<Rightarrow> string \<Rightarrow> string list" where
  "split_loop sep cur [] = [cur]"
| "split_loop sep cur (c # cs) =
     (if prefix sep (c # cs) then cur # split_loop sep [] (drop (length sep - 1) cs)
      else split_loop sep (cur @ [c]) cs)"

definition split_py :: "string \<Rightarrow> string \<Rightarrow> error + string list" where
  "split_py s sep = (if sep = [] then Inl ValueError else Inr (split_loop sep [] s))"

text \<open>
  \<open>s.strip()\<close> removes leading and trailing whitespace: the code points for which
  \<open>str.isspace\<close> holds (below 256: tab to carriage return, the four separators
  0x1C to 0x1F, space, 0x85 and 0xA0).
\<close>

definition is_space :: "char \<Rightarrow> bool" where
  "is_space c = ((of_char c :: nat) \<in> {9, 10, 11, 12, 13, 28, 29, 30, 31, 32, 133, 160})"

definition strip :: "string \<Rightarrow> string" where
  "strip s = rev (dropWhile is_space (rev (dropWhile is_space s)))"

section \<open>Response parser\<close>

definition extract_json :: "string \<Rightarrow> error + string" where
  "extract_json content =
     (if str_contains ''```json'' content then
        bindE (split_py content ''```json'') (\<lambda>parts.
        bindE (getitem parts 1) (\<lambda>part.
        bindE (split_py part ''```'') (\<lambda>inner.
        bindE (getitem inner 0) (\<lambda>payload.
        Inr (strip payload)))))
      else if str_contains ''```'' content then
        bindE (split_py content ''```'') (\<lambda>parts.
        bindE (getitem parts 1) (\<lambda>part.
        bindE (split_py part ''```'') (\<lambda>inner.
        bindE (getitem inner 0) (\<lambda>payload.
        Inr (strip payload)))))
      else Inr content)"

text \<open>The decimal form of an integer in an f-string.\<close>

fun str_of_nat :: "nat \<Rightarrow> string" where
  "str_of_nat n =
     (if n < 10 then [''0123456789'' ! n]
      else str_of_nat (n div 10) @ [''0123456789'' ! (n mod 10)])"

declare str_of_nat.simps [simp del]

definition str_of_int :: "int \<Rightarrow> string" where
  "str_of_int i = (if i < 0 then ''-'' @ str_of_nat (nat (- i)) else str_of_nat (nat i))"

section \<open>Paths, files and the outside world\<close>

text \<open>
  A path is kept in the normalised textual form of \<open>pathlib\<close> (what \<open>str(p)\<close> gives).
  \<open>name\<close> is the final component, \<open>absolute\<close> prepends the working directory to a
  relative path.
\<close>

type_synonym path = string

definition path_name :: "path \<Rightarrow> string" where
  "path_name p =
     (if p = ''.'' then [] else rev (takeWhile (\<lambda>c. c \<noteq> CHR ''/'') (rev p)))"

definition absolute :: "path \<Rightarrow> path \<Rightarrow> path" where
  "absolute wd p =
     (if prefix ''/'' p then p
      else if p = ''.'' then wd
      else if suffix ''/'' wd then wd @ p
      else wd @ ''/'' @ p)"

text \<open>
  Everything the program does to its surroundings is recorded in order: what it
  prints, every request to a remote model, every download, every file it writes and
  every process it starts. \<open>TtsStart text voice\<close> is the request
  \<open>tts.start(text, voice_id, sample_rate=44100, english_normalization=True,
  language_boost="English")\<close>.
\<close>

datatype event =
    Print string
  | PdfExtract path
  | HttpGet string
  | WriteFile path string
  | Llm string
  | TtsStart json string
  | TtsWait string
  | Run "string list"

record world =
  files :: "path \<rightharpoonup> string"
  trace :: "event list"

text \<open>
  The collaborators the program calls but does not define: the three remote models,
  HTTP, the text decoding of \<open>read_text\<close>, \<open>json.loads\<close>, the process started by
  \<open>subprocess.run\<close>, the working directory and the iteration order of a Python
  \<open>set\<close> (given the elements in insertion order). A remote service may answer
  differently each time, so it sees the world at the moment of the call; each may
  fail. A handle returned by \<open>tts.start\<close> is a string.
\<close>

record env =
  cwd :: path
  pdf_extractor :: "world \<Rightarrow> path \<Rightarrow> error + string"
  requests_get :: "world \<Rightarrow> string \<Rightarrow> error + string"
  decode_text :: "string \<Rightarrow> error + string"
  llm :: "world \<Rightarrow> string \<Rightarrow> error + string"
  json_loads :: "string \<Rightarrow> error + json"
  tts_start :: "world \<Rightarrow> json \<Rightarrow> string \<Rightarrow> error + string"
  tts_wait :: "world \<Rightarrow> string \<Rightarrow> error + string"
  subprocess :: "world \<Rightarrow> string list \<Rightarrow> error + int \<times> (path \<rightharpoonup> string)"
  set_iter :: "json list \<Rightarrow> json list"

text \<open>
  A statement of the program takes the world and returns its value or the exception
  it raised, with the world it leaves behind.
\<close>

type_synonym 'a prog = "world \<Rightarrow> (error + 'a) \<times> world"

definition returnW :: "'a \<Rightarrow> 'a prog" where
  "returnW x = (\<lambda>w. (Inr x, w))"

definition raiseW :: "error \<Rightarrow> 'a prog" where
  "raiseW e = (\<lambda>w. (Inl e, w))"

definition liftW :: "error + 'a \<Rightarrow> 'a prog" where
  "liftW r = (\<lambda>w. (r, w))"

definition bindW :: "'a prog \<Rightarrow> ('a \<Rightarrow> 'b prog) \<Rightarrow> 'b prog" where
  "bindW m f = (\<lambda>w. case m w of (Inl e, w') \<Rightarrow> (Inl e, w') | (Inr x, w') \<Rightarrow> f x w')"

definition emit :: "event \<Rightarrow> unit prog" where
  "emit ev = (\<lambda>w. (Inr (), w\<lparr>trace := trace w @ [ev]\<rparr>))"

definition print :: "string \<Rightarrow> unit prog" where
  "print s = emit (Print s)"

text \<open>A call of a remote service: the request is recorded, the answer is the service's.\<close>

definition call :: "event \<Rightarrow> (world \<Rightarrow> error + 'a) \<Rightarrow> 'a prog" where
  "call ev service = (\<lambda>w. (service w, w\<lparr>trace := trace w @ [ev]\<rparr>))"

text \<open>
  Writing a file, by \<open>path.write_bytes(content)\<close> or by \<open>open(path, "w")\<close> and
  \<open>f.write\<close>; reading one back with \<open>path.read_text()\<close>.
\<close>

definition write_bytes :: "env \<Rightarrow> path \<Rightarrow> string \<Rightarrow> unit prog" where
  "write_bytes e p content =
     (\<lambda>w. (Inr (), w\<lparr>files := (files w)(absolute (cwd e) p \<mapsto> content),
                      trace := trace w @ [WriteFile (absolute (cwd e) p) content]\<rparr>))"

definition read_text :: "env \<Rightarrow> path \<Rightarrow> string prog" where
  "read_text e p =
     (\<lambda>w. case files w (absolute (cwd e) p) of
            None \<Rightarrow> (Inl FileNotFoundError, w)
          | Some content \<Rightarrow> (decode_text e content, w))"

text \<open>\<open>subprocess.run(argv, check=True)\<close>: a non-zero exit status is CalledProcessError.\<close>

definition subprocess_run :: "env \<Rightarrow> string list \<Rightarrow> unit prog" where
  "subprocess_run e argv =
     (\<lambda>w. case subprocess e w argv of
            Inl err \<Rightarrow> (Inl err, w\<lparr>trace := trace w @ [Run argv]\<rparr>)
          | Inr (status, fs) \<Rightarrow>
              (if status = 0 then Inr () else Inl (CalledProcessError status),
               w\<lparr>files := fs, trace := trace w @ [Run argv]\<rparr>))"

definition download :: "env \<Rightarrow> string \<Rightarrow> path \<Rightarrow> unit prog" where
  "download e url p =
     bindW (call (HttpGet url) (\<lambda>w. requests_get e w url)) (\<lambda>content.
     write_bytes e p content)"

section \<open>Data model\<close>

record PDFMetadata =
  filename :: string
  markdown :: string
  type :: string

section \<open>Document ingestor\<close>

fun process_pdfs_loop ::
  "env \<Rightarrow> nat \<Rightarrow> nat \<Rightarrow> path list \<Rightarrow> PDFMetadata list \<Rightarrow> PDFMetadata list prog" where
  "process_pdfs_loop e n i [] results = returnW results"
| "process_pdfs_loop e n i (pdf_path # rest) results =
     bindW (print (''Processing PDF '' @ str_of_nat (i + 1) @ ''/'' @ str_of_nat n @ '': '' @
                   path_name pdf_path)) (\<lambda>_.
     bindW (call (PdfExtract pdf_path) (\<lambda>w. pdf_extractor e w pdf_path)) (\<lambda>markdown_url.
     bindW (download e markdown_url ''/tmp/result.md'') (\<lambda>_.
     bindW (read_text e ''/tmp/result.md'') (\<lambda>md.
     process_pdfs_loop e n (Suc i) rest
       (results @ [\<lparr>filename = path_name pdf_path, markdown = md,
                    type = (if i = 0 then ''main'' else ''context'')\<rparr>])))))"

definition process_pdfs :: "env \<Rightarrow> path list \<Rightarrow> PDFMetadata list prog" where
  "process_pdfs e pdfs = process_pdfs_loop e (length pdfs) 0 pdfs []"

section \<open>Content planner\<close>

text \<open>The context of the summarisation prompt: one block per document.\<close>

fun all_pdf_text_loop :: "PDFMetadata list \<Rightarrow> string \<Rightarrow> string" where
  "all_pdf_text_loop [] all_pdf_text = all_pdf_text"
| "all_pdf_text_loop (pdf # rest) all_pdf_text =
     all_pdf_text_loop rest
       (all_pdf_text @ ''\<newline>\<newline>Document: '' @ filename pdf @ ''\<newline>'' @
        take 5000 (markdown pdf) @ ''\<newline>\<newline>'')"

definition truncate_context :: "string \<Rightarrow> string" where
  "truncate_context all_pdf_text =
     (let max_context_length = 24000 in
      if length all_pdf_text > max_context_length
      then take max_context_length all_pdf_text @
           ''\<newline>\<newline>[truncated due to length]\<newline>''
      else all_pdf_text)"

definition summary_prompt :: "string \<Rightarrow> string" where
  "summary_prompt all_pdf_text =
       ''Summarize the main points from these documents. '' @
       ''Focus on key facts, figures, and insights:\<newline>'' @
       ''\<newline>'' @
       ''    '' @ all_pdf_text @ ''\<newline>'' @
       ''\<newline>'' @
       ''    Provide a concise summary in 3-5 paragraphs that captures the '' @
       ''essential information.''"

definition outline_prompt :: "string \<Rightarrow> string \<Rightarrow> string \<Rightarrow> int \<Rightarrow> string \<Rightarrow> bool \<Rightarrow> string" where
  "outline_prompt summ host_name guest_name duration_minutes podcast_topic monologue =
       ''Based on the following summary of documents:\<newline>'' @
       ''\<newline>'' @
       ''    '' @ summ @ ''\<newline>'' @
       ''\<newline>'' @
       ''    Create an outline for a '' @
       (if monologue then ''monologue''
        else ''podcast conversation between a host and guest'') @
       '' that discusses these documents.\<newline>'' @
       ''    The '' @ (if monologue then ''speaker'' else ''host'') @ '' is named '' @
       host_name @
       (if monologue then ''.'' else '' and the guest is named '' @ guest_name @ ''.'') @
       ''.\<newline>'' @
       ''    '' @ (if monologue then ''The monologue'' else ''The conversation'') @
       '' should last approximately '' @ str_of_int duration_minutes @
       '' minutes.\<newline>'' @
       ''    '' @
       (if podcast_topic \<noteq> [] then ''The podcast should focus on: '' @ podcast_topic
        else []) @
       ''\<newline>'' @
       ''\<newline>'' @
       ''    Create a detailed outline with 5-10 main points or segments, where '' @
       ''each segment includes a topic and key points to discuss.''"

definition monologue_prompt :: "string \<Rightarrow> string \<Rightarrow> string \<Rightarrow> int \<Rightarrow> string" where
  \<open>monologue_prompt outline summ host_name duration_minutes =
       ''You will create a monologue podcast script for '' @ host_name @
       '' based on this outline:\<newline>'' @
       ''\<newline>'' @
       ''        '' @ outline @ ''\<newline>'' @
       ''\<newline>'' @
       ''        The monologue should:\<newline>'' @
       ''        1. Be approximately '' @ str_of_int duration_minutes @
       '' minutes in length (about '' @ str_of_int (duration_minutes * 150) @
       '' words)\<newline>'' @
       ''        2. Feel conversational and engaging\<newline>'' @
       ''         3. Reference information from the documents summarized as: '' @
       summ @ ''\<newline>'' @
       ''        4. Have a clear introduction, body, and conclusion\<newline>'' @
       ''        5. Use a natural speaking style\<newline>'' @
       ''\<newline>'' @
       ''        Format the monologue as follows:\<newline>'' @
       ''\<newline>'' @
       ''        {"title": "[PODCAST TITLE]", "summary": "[BRIEF SUMMARY]", "lines": [\<newline>'' @
       ''          {"text": "[First line of speech]", "speaker": "'' @ host_name @
       ''"},\<newline>'' @
       ''          {"text": "[Next line of speech]", "speaker": "'' @ host_name @
       ''"},\<newline>'' @
       ''          ...\<newline>'' @
       ''        ]}\<newline>'' @
       ''\<newline>'' @
       ''        Return ONLY the formatted JSON with no additional text or explanation.''\<close>

definition dialogue_prompt :: "string \<Rightarrow> string \<Rightarrow> string \<Rightarrow> string \<Rightarrow> int \<Rightarrow> string" where
  \<open>dialogue_prompt outline summ host_name guest_name duration_minutes =
       ''You will create a podcast dialogue script between '' @ host_name @ '' and '' @
       guest_name @ '' based on this outline:\<newline>'' @
       ''\<newline>'' @
       ''        '' @ outline @ ''\<newline>'' @
       ''\<newline>'' @
       ''        The conversation should:\<newline>'' @
       ''        1. Be approximately '' @ str_of_int duration_minutes @
       '' minutes in length (about '' @ str_of_int (duration_minutes * 150) @
       '' words)\<newline>'' @
       ''        2. Feel natural and conversational\<newline>'' @
       ''        3. Reference information from the documents summarized as: '' @
       summ @ ''\<newline>'' @
       ''        4. Have the host ask questions and guide the conversation\<newline>'' @
       ''        5. Have the guest provide expertise and insights\<newline>'' @
       ''        6. Include back-and-forth exchanges that sound realistic\<newline>'' @
       ''\<newline>'' @
       ''        Format the dialogue as follows:\<newline>'' @
       ''\<newline>'' @
       ''        {"title": "[PODCAST TITLE]", "summary": "[BRIEF SUMMARY]", "lines": [\<newline>'' @
       ''          {"text": "[First line of speech]", "speaker": "['' @ host_name @
       '' or '' @ guest_name @ '']"},\<newline>'' @
       ''          {"text": "[Next line of speech]", "speaker": "['' @ host_name @
       '' or '' @ guest_name @ '']"},\<newline>'' @
       ''          ...\<newline>'' @
       ''        ]}\<newline>'' @
       ''\<newline>'' @
       ''        Return ONLY the formatted JSON with no additional text or explanation.''\<close>

text \<open>
  The script. Its fields are whatever \<open>json.loads\<close> decoded: the dataclasses do not
  check their annotations.
\<close>

record DialogueEntry =
  "text" :: json
  speaker :: json

record Conversation =
  title :: json
  summary :: json
  lines :: "DialogueEntry list"

text \<open>
  \<open>obj[key]\<close> for a string key on a decoded value: a missing member is KeyError,
  anything but an object is TypeError. \<open>for x in obj\<close>: a list gives its items, an
  object its keys, a string its characters; nothing else can be iterated.
\<close>

fun subscript :: "json \<Rightarrow> string \<Rightarrow> error + json" where
  "subscript (JObj members) key =
     (case map_of members key of None \<Rightarrow> Inl (KeyError (JStr key)) | Some v \<Rightarrow> Inr v)"
| "subscript _ key = Inl TypeError"

fun iterate :: "json \<Rightarrow> error + json list" where
  "iterate (JArr items) = Inr items"
| "iterate (JObj members) = Inr (map (\<lambda>member. JStr (fst member)) members)"
| "iterate (JStr s) = Inr (map (\<lambda>c. JStr [c]) s)"
| "iterate _ = Inl TypeError"

fun dialogue_entries :: "json list \<Rightarrow> error + DialogueEntry list" where
  "dialogue_entries [] = Inr []"
| "dialogue_entries (line # rest) =
     bindE (subscript line ''text'') (\<lambda>t.
     bindE (subscript line ''speaker'') (\<lambda>s.
     bindE (dialogue_entries rest) (\<lambda>entries.
     Inr (\<lparr>text = t, speaker = s\<rparr> # entries))))"

definition parse_conversation :: "json \<Rightarrow> error + Conversation" where
  "parse_conversation conversation_data =
     bindE (subscript conversation_data ''lines'') (\<lambda>ls.
     bindE (iterate ls) (\<lambda>items.
     bindE (dialogue_entries items) (\<lambda>entries.
     bindE (subscript conversation_data ''title'') (\<lambda>t.
     bindE (subscript conversation_data ''summary'') (\<lambda>s.
     Inr \<lparr>title = t, summary = s, lines = entries\<rparr>)))))"

definition generate_podcast_content ::
  "env \<Rightarrow> PDFMetadata list \<Rightarrow> string \<Rightarrow> string \<Rightarrow> int \<Rightarrow> string \<Rightarrow> bool \<Rightarrow> Conversation prog" where
  "generate_podcast_content e pdf_metadata host_name guest_name duration_minutes
       podcast_topic monologue =
     (let all_pdf_text = truncate_context (all_pdf_text_loop pdf_metadata []);
          p1 = summary_prompt all_pdf_text in
      bindW (call (Llm p1) (\<lambda>w. llm e w p1)) (\<lambda>summ.
      bindW (print ''<<< PDF summary >>>'') (\<lambda>_.
      bindW (print summ) (\<lambda>_.
      let p2 = outline_prompt summ host_name guest_name duration_minutes podcast_topic
                 monologue in
      bindW (call (Llm p2) (\<lambda>w. llm e w p2)) (\<lambda>outline.
      bindW (print ''<<< Podcast outline >>>'') (\<lambda>_.
      bindW (print outline) (\<lambda>_.
      let content_prompt =
            (if monologue then monologue_prompt outline summ host_name duration_minutes
             else dialogue_prompt outline summ host_name guest_name duration_minutes) in
      bindW (call (Llm content_prompt) (\<lambda>w. llm e w content_prompt)) (\<lambda>content_response.
      bindW (print ''<<< Podcast content >>>'') (\<lambda>_.
      bindW (print content_response) (\<lambda>_.
      bindW (liftW (extract_json content_response)) (\<lambda>json_content.
      bindW (liftW (json_loads e json_content)) (\<lambda>conversation_data.
      liftW (parse_conversation conversation_data)))))))))))))"

section \<open>Voice mapper\<close>

text \<open>
  \<open>set(...)\<close> needs hashable elements: a list or a dict among them is TypeError.
  \<open>voice_mapping[speaker]\<close> on a missing key is KeyError.
\<close>

definition hashable :: "json \<Rightarrow> bool" where
  "hashable v = (case v of JArr _ \<Rightarrow> False | JObj _ \<Rightarrow> False | _ \<Rightarrow> True)"

definition lookup :: "(json \<rightharpoonup> string) \<Rightarrow> json \<Rightarrow> error + string" where
  "lookup d k = (case d k of None \<Rightarrow> Inl (KeyError k) | Some v \<Rightarrow> Inr v)"

fun monologue_loop :: "json list \<Rightarrow> string \<Rightarrow> (json \<rightharpoonup> string) \<Rightarrow> (json \<rightharpoonup> string)" where
  "monologue_loop [] host_voice voice_mapping = voice_mapping"
| "monologue_loop (s # rest) host_voice voice_mapping =
     monologue_loop rest host_voice (voice_mapping(s \<mapsto> host_voice))"

fun extras_loop ::
  "nat \<Rightarrow> json list \<Rightarrow> string \<Rightarrow> string \<Rightarrow> (json \<rightharpoonup> string) \<Rightarrow> (json \<rightharpoonup> string)" where
  "extras_loop i [] host_voice guest_voice voice_mapping = voice_mapping"
| "extras_loop i (s # rest) host_voice guest_voice voice_mapping =
     extras_loop (Suc i) rest host_voice guest_voice
       (voice_mapping(s \<mapsto> (if i mod 2 = 0 then host_voice else guest_voice)))"

text \<open>
  Lines 252 to 272 of \<open>generate_audio\<close>: the mapping built from the speakers in the
  order the set yields them.
\<close>

definition voice_mapping_of ::
  "json list \<Rightarrow> string \<Rightarrow> string \<Rightarrow> bool \<Rightarrow> (json \<rightharpoonup> string)" where
  "voice_mapping_of speakers host_voice guest_voice monologue =
     (if monologue then monologue_loop speakers host_voice Map.empty
      else
        let speaker_list = speakers;
            vm1 = (if length speaker_list \<ge> 1
                   then Map.empty(speaker_list ! 0 \<mapsto> host_voice) else Map.empty);
            vm2 = (if length speaker_list \<ge> 2
                   then vm1(speaker_list ! 1 \<mapsto> guest_voice) else vm1)
        in extras_loop 2 (drop 2 speaker_list) host_voice guest_voice vm2)"

section \<open>Audio synthesizer and assembler\<close>

fun dispatch_loop ::
  "env \<Rightarrow> (json \<rightharpoonup> string) \<Rightarrow> DialogueEntry list \<Rightarrow> string list \<Rightarrow> string list prog" where
  "dispatch_loop e voice_mapping [] audio_tasks = returnW audio_tasks"
| "dispatch_loop e voice_mapping (entry # rest) audio_tasks =
     bindW (liftW (lookup voice_mapping (speaker entry))) (\<lambda>voice.
     bindW (call (TtsStart (text entry) voice) (\<lambda>w. tts_start e w (text entry) voice))
       (\<lambda>audio_task.
     dispatch_loop e voice_mapping rest (audio_tasks @ [audio_task])))"

definition segment_path :: "nat \<Rightarrow> path" where
  "segment_path i = ''/tmp/audio-'' @ str_of_nat i @ ''.mp3''"

fun collect_loop :: "env \<Rightarrow> nat \<Rightarrow> string list \<Rightarrow> path list \<Rightarrow> path list prog" where
  "collect_loop e i [] all_audio_segments = returnW all_audio_segments"
| "collect_loop e i (audio_task # rest) all_audio_segments =
     bindW (call (TtsWait audio_task) (\<lambda>w. tts_wait e w audio_task)) (\<lambda>audio_result.
     bindW (download e audio_result (segment_path i)) (\<lambda>_.
     collect_loop e (Suc i) rest (all_audio_segments @ [segment_path i])))"

definition manifest :: "env \<Rightarrow> path list \<Rightarrow> string" where
  "manifest e audio_files =
     concat (map (\<lambda>audio_file.
       ''file '' @ [CHR 0x27] @ absolute (cwd e) audio_file @ [CHR 0x27] @ ''\<newline>'')
       audio_files)"

definition ffmpeg_cmd :: "path \<Rightarrow> path \<Rightarrow> string list" where
  "ffmpeg_cmd file_list_path output_path =
     [''ffmpeg'', ''-y'', ''-f'', ''concat'', ''-safe'', ''0'', ''-i'', file_list_path,
      ''-c'', ''copy'', output_path]"

definition combine_audio_files :: "env \<Rightarrow> path list \<Rightarrow> path \<Rightarrow> unit prog" where
  "combine_audio_files e audio_files output_path =
     (let file_list_path = ''/tmp/file_list.txt'' in
      bindW (write_bytes e file_list_path (manifest e audio_files)) (\<lambda>_.
      subprocess_run e (ffmpeg_cmd file_list_path output_path)))"

definition generate_audio :: "env \<Rightarrow> Conversation \<Rightarrow> string \<Rightarrow> string \<Rightarrow> bool \<Rightarrow> path prog" where
  "generate_audio e conversation host_voice guest_voice monologue =
     (if \<not> list_all hashable (map speaker (lines conversation)) then raiseW TypeError
      else
        let speakers = set_iter e (map speaker (lines conversation));
            voice_mapping = voice_mapping_of speakers host_voice guest_voice monologue;
            combined_audio_path = ''podcast.mp3'' in
        bindW (dispatch_loop e voice_mapping (lines conversation) []) (\<lambda>audio_tasks.
        bindW (collect_loop e 0 audio_tasks []) (\<lambda>all_audio_segments.
        bindW (print ''TTS completed, combining audio files'') (\<lambda>_.
        bindW (combine_audio_files e all_audio_segments combined_audio_path) (\<lambda>_.
        returnW combined_audio_path)))))"

section \<open>The pipeline\<close>

definition pdf_to_podcast ::
  "env \<Rightarrow> path list \<Rightarrow> string \<Rightarrow> string \<Rightarrow> string \<Rightarrow> string \<Rightarrow> int \<Rightarrow> string \<Rightarrow> bool \<Rightarrow> path prog" where
  "pdf_to_podcast e pdfs host_name guest_name host_voice guest_voice duration_minutes
       podcast_topic monologue =
     bindW (process_pdfs e pdfs) (\<lambda>pdf_metadata.
     bindW (generate_podcast_content e pdf_metadata host_name guest_name duration_minutes
              podcast_topic monologue) (\<lambda>conversation.
     bindW (generate_audio e conversation host_voice guest_voice monologue) (\<lambda>audio_path.
     returnW audio_path)))"

section \<open>Traces\<close>

text \<open>
  A synthesis request in a trace, and the statements whose every run only appends
  events of a given kind to the trace.
\<close>

fun is_synthesis :: "event \<Rightarrow> bool" where
  "is_synthesis (TtsStart t v) = True"
| "is_synthesis _ = False"

definition emits :: "(event \<Rightarrow> bool) \<Rightarrow> 'a prog \<Rightarrow> bool" where
  "emits P m = (\<forall>w. \<exists>evs. trace (snd (m w)) = trace w @ evs \<and> list_all P evs)"

section \<open>The specification's wording\<close>

text \<open>
  The words of the specification: the text before the first occurrence of a marker
  (all of the text when the marker does not occur) and the text behind it.
\<close>

fun before_first :: "string \<Rightarrow> string \<Rightarrow> string" where
  "before_first m [] = []"
| "before_first m (c # cs) = (if prefix m (c # cs) then [] else c # before_first m cs)"

fun after_first :: "string \<Rightarrow> string \<Rightarrow> string" where
  "after_first m [] = []"
| "after_first m (c # cs) =
     (if prefix m (c # cs) then drop (length m) (c # cs) else after_first m cs)"

definition spec_payload :: "string \<Rightarrow> string" where
  "spec_payload reply =
     (if str_contains ''```json'' reply
      then before_first ''```'' (after_first ''```json'' reply)
      else if str_contains ''```'' reply
      then before_first ''```'' (after_first ''```'' reply)
      else reply)"

section \<open>Python's sets\<close>

text \<open>
  What Python guarantees of a set built from the elements \<open>xs\<close>: iterating it yields
  every distinct element once, in an order the language leaves open.
\<close>

definition set_semantics :: "env \<Rightarrow> json list \<Rightarrow> bool" where
  "set_semantics e xs = (distinct (set_iter e xs) \<and> set (set_iter e xs) = set xs)"

section \<open>Example inputs\<close>

text \<open>
  An environment in which every collaborator answers, the generation model with prose
  that is no JSON, and a set yields its elements in order of first insertion; a
  variant whose generation model answers with the empty JSON object; three scripts (a
  dialogue, a monologue and a panel of four); document lists above and below the
  context limit; and two input paths with the documents ingested from them.
\<close>

definition example_env :: env where
  "example_env =
     \<lparr>cwd = ''/src'',
      pdf_extractor = (\<lambda>w p. Inr (''https://files/'' @ path_name p @ ''.md'')),
      requests_get = (\<lambda>w url. Inr (''content of '' @ url)),
      decode_text = Inr,
      llm = (\<lambda>w prompt. Inr ''I cannot help with that.''),
      json_loads = (\<lambda>s. if s = ''{}'' then Inr (JObj []) else Inl JSONDecodeError),
      tts_start = (\<lambda>w t voice. Inr (''task-'' @ str_of_nat (length (trace w)))),
      tts_wait = (\<lambda>w task. Inr (''https://audio/'' @ task)),
      subprocess = (\<lambda>w argv. Inr (0, files w)),
      set_iter = (\<lambda>xs. rev (remdups (rev xs)))\<rparr>"

definition example_lines :: "DialogueEntry list" where
  "example_lines =
     [\<lparr>text = JStr ''Welcome.'', speaker = JStr ''Adam''\<rparr>,
      \<lparr>text = JStr ''Thanks.'', speaker = JStr ''Bella''\<rparr>,
      \<lparr>text = JStr ''Let us begin.'', speaker = JStr ''Adam''\<rparr>]"

definition example_script :: Conversation where
  "example_script = \<lparr>title = JStr ''T'', summary = JStr ''S'', lines = example_lines\<rparr>"

definition solo_script :: Conversation where
  "solo_script =
     \<lparr>title = JStr ''T'', summary = JStr ''S'',
      lines = [\<lparr>text = JStr ''Hello.'', speaker = JStr ''Adam''\<rparr>,
               \<lparr>text = JStr ''Goodbye.'', speaker = JStr ''Adam''\<rparr>]\<rparr>"

definition panel_script :: Conversation where
  "panel_script =
     \<lparr>title = JStr ''T'', summary = JStr ''S'',
      lines = [\<lparr>text = JStr ''One.'', speaker = JStr ''Adam''\<rparr>,
               \<lparr>text = JStr ''Two.'', speaker = JStr ''Bella''\<rparr>,
               \<lparr>text = JStr ''Three.'', speaker = JStr ''Carl''\<rparr>,
               \<lparr>text = JStr ''Four.'', speaker = JStr ''Dana''\<rparr>,
               \<lparr>text = JStr ''Five.'', speaker = JStr ''Adam''\<rparr>]\<rparr>"

definition long_documents :: "PDFMetadata list" where
  "long_documents =
     [\<lparr>filename = ''a.pdf'', markdown = replicate 6000 CHR ''a'', type = ''main''\<rparr>,
      \<lparr>filename = ''b.pdf'', markdown = replicate 6000 CHR ''b'', type = ''context''\<rparr>,
      \<lparr>filename = ''c.pdf'', markdown = replicate 6000 CHR ''c'', type = ''context''\<rparr>,
      \<lparr>filename = ''d.pdf'', markdown = replicate 6000 CHR ''d'', type = ''context''\<rparr>,
      \<lparr>filename = ''e.pdf'', markdown = replicate 6000 CHR ''e'', type = ''context''\<rparr>]"

definition initial_world :: world where
  "initial_world = \<lparr>files = Map.empty, trace = []\<rparr>"

definition short_documents :: "PDFMetadata list" where
  "short_documents = [\<lparr>filename = ''a.pdf'', markdown = ''Hello'', type = ''main''\<rparr>]"

definition example_pdfs :: "path list" where
  "example_pdfs = [''/in/paper.pdf'', ''/in/notes.pdf'']"

definition empty_object_env :: env where
  "empty_object_env = example_env\<lparr>llm := (\<lambda>w prompt. Inr ''{}'')\<rparr>"

definition example_metadata :: "PDFMetadata list" where
  "example_metadata =
     [\<lparr>filename = ''paper.pdf'', markdown = ''content of https://files/paper.pdf.md'',
       type = ''main''\<rparr>,
      \<lparr>filename = ''notes.pdf'', markdown = ''content of https://files/notes.pdf.md'',
       type = ''context''\<rparr>]"

section \<open>Properties of the string operations\<close>

lemma split_loop_eq:
  "sep \<noteq> [] \<Longrightarrow> split_loop sep cur s =
     (cur @ before_first sep s) #
       (if str_contains sep s then split_loop sep [] (after_first sep s) else [])"
proof (induction s arbitrary: cur)
  case Nil
  then show ?case by simp
next
  case (Cons c cs)
  show ?case
  proof (cases "prefix sep (c # cs)")
    case True
    have "drop (length sep - 1) cs = drop (length sep) (c # cs)"
      using Cons.prems by (cases sep) simp_all
    with True show ?thesis by simp
  next
    case False
    with Cons.IH [OF Cons.prems, of "cur @ [c]"] show ?thesis by simp
  qed
qed

lemma split_loop_nonempty: "split_loop sep cur s \<noteq> []"
  by (induction s arbitrary: cur) auto

lemma split_loop_length:
  assumes "sep \<noteq> []" "str_contains sep s"
  shows "2 \<le> length (split_loop sep cur s)"
proof -
  have "split_loop sep [] (after_first sep s) \<noteq> []" by (rule split_loop_nonempty)
  then have "1 \<le> length (split_loop sep [] (after_first sep s))"
    by (cases "split_loop sep [] (after_first sep s)") auto
  then show ?thesis using assms by (simp add: split_loop_eq [of sep cur s])
qed

lemma prefix_before_first: "prefix (before_first m s) s"
  by (induction s) auto

lemma before_first_idem: "before_first m (before_first m s) = before_first m s"
proof (induction s)
  case Nil then show ?case by simp
next
  case (Cons c cs)
  show ?case
  proof (cases "prefix m (c # cs)")
    case True then show ?thesis by simp
  next
    case False
    have "prefix (c # before_first m cs) (c # cs)" by (simp add: prefix_before_first)
    then have "\<not> prefix m (c # before_first m cs)" using False prefix_order.trans by blast
    with False Cons show ?thesis by simp
  qed
qed

lemma contains_iff: "str_contains m s \<longleftrightarrow> (\<exists>pre post. s = pre @ m @ post)"
proof (induction s)
  case Nil then show ?case by auto
next
  case (Cons c cs)
  show ?case
  proof
    assume "str_contains m (c # cs)"
    then consider "prefix m (c # cs)" | "str_contains m cs" by auto
    then show "\<exists>pre post. c # cs = pre @ m @ post"
    proof cases
      case 1 then obtain post where "c # cs = m @ post" by (auto simp: prefix_def)
      then have "c # cs = [] @ m @ post" by simp
      then show ?thesis by blast
    next
      case 2 then obtain pre post where "cs = pre @ m @ post" using Cons by blast
      then have "c # cs = (c # pre) @ m @ post" by simp
      then show ?thesis by blast
    qed
  next
    assume "\<exists>pre post. c # cs = pre @ m @ post"
    then obtain pre post where e: "c # cs = pre @ m @ post" by blast
    show "str_contains m (c # cs)"
    proof (cases pre)
      case Nil
      with e have "prefix m (c # cs)" by (simp add: prefix_def)
      then show ?thesis by simp
    next
      case (Cons p ps) with e have "cs = ps @ m @ post" by simp
      then show ?thesis using Cons.IH by auto
    qed
  qed
qed

lemma first_occurrence:
  assumes "m \<noteq> []" "\<not> str_contains m (pre @ butlast m)"
  shows "before_first m (pre @ m @ rest) = pre \<and> after_first m (pre @ m @ rest) = rest"
  using assms
proof (induction pre)
  case Nil
  then obtain a as where "m = a # as" by (cases m) auto
  then show ?case by simp
next
  case (Cons p ps)
  have np: "\<not> prefix m ((p # ps) @ butlast m)" using Cons.prems(2) by auto
  have "\<not> prefix m ((p # ps) @ m @ rest)"
  proof
    assume a: "prefix m ((p # ps) @ m @ rest)"
    have "(p # ps) @ m @ rest = ((p # ps) @ butlast m) @ (last m # rest)"
      using Cons.prems(1) by simp
    then have b: "prefix ((p # ps) @ butlast m) ((p # ps) @ m @ rest)" by (metis prefixI)
    have "length m \<le> length ((p # ps) @ butlast m)" by simp
    with a b have "prefix m ((p # ps) @ butlast m)" using prefix_length_prefix by blast
    with np show False by blast
  qed
  moreover have "\<not> str_contains m (ps @ butlast m)" using Cons.prems(2) by simp
  ultimately show ?case using Cons.IH Cons.prems(1) by simp
qed


lemma bf_step: "\<not> prefix m (c # cs) \<Longrightarrow> before_first m (c # cs) = c # before_first m cs"
  by simp
lemma bf_hit: "prefix m (c # cs) \<Longrightarrow> before_first m (c # cs) = []"
  by simp

lemma fenced_body_empty:
  assumes "\<not> prefix ''`json'' post" and "\<not> prefix ''``json'' post"
  shows "before_first ''```'' (before_first ''```json'' (''```'' @ post)) = []"
proof (cases "prefix ''json'' post")
  case True
  then have "prefix ''```json'' (''```'' @ post)" by simp
  then have "before_first ''```json'' (''```'' @ post) = []"
    unfolding append.simps by (rule bf_hit)
  then show ?thesis by (simp only: before_first.simps)
next
  case False
  then have 1: "\<not> prefix ''```json'' (CHR 0x60 # CHR 0x60 # CHR 0x60 # post)" by simp
  have 2: "\<not> prefix ''```json'' (CHR 0x60 # CHR 0x60 # post)" using assms(1) by simp
  have 3: "\<not> prefix ''```json'' (CHR 0x60 # post)" using assms(2) by simp
  have "before_first ''```json'' (''```'' @ post) = ''```'' @ before_first ''```json'' post"
    unfolding append.simps bf_step [OF 1] bf_step [OF 2] bf_step [OF 3] ..
  also have "before_first ''```'' \<dots> = []"
    unfolding append.simps by (rule bf_hit) simp
  finally show ?thesis .
qed

lemma split_nth0: "sep \<noteq> [] \<Longrightarrow> getitem (split_loop sep [] s) 0 = Inr (before_first sep s)"
  by (simp add: getitem_def split_loop_eq [of sep "[]" s])

lemma split_nth1:
  assumes "sep \<noteq> []" "str_contains sep s"
  shows "getitem (split_loop sep [] s) (Suc 0) = Inr (before_first sep (after_first sep s))"
proof -
  have "split_loop sep [] s = before_first sep s # split_loop sep [] (after_first sep s)"
    using assms by (simp add: split_loop_eq [of sep "[]" s])
  moreover have "split_loop sep [] (after_first sep s) =
      before_first sep (after_first sep s) #
        (if str_contains sep (after_first sep s)
         then split_loop sep [] (after_first sep (after_first sep s)) else [])"
    using assms(1) by (simp add: split_loop_eq [of sep "[]" "after_first sep s"])
  ultimately show ?thesis by (simp add: getitem_def)
qed

lemma extract_fenced:
  assumes "sep \<noteq> []" "str_contains sep s"
  shows "bindE (split_py s sep) (\<lambda>parts.
         bindE (getitem parts 1) (\<lambda>part.
         bindE (split_py part ''```'') (\<lambda>inner.
         bindE (getitem inner 0) (\<lambda>payload.
         Inr (strip payload))))) =
       Inr (strip (before_first ''```'' (before_first sep (after_first sep s))))"
  using assms by (simp add: split_py_def bindE_def split_nth1 split_nth0)

lemma prefix_fence_json: "prefix ''```'' ''```json''"
  by simp
lemma contains_json_fence: "str_contains ''```json'' s \<Longrightarrow> str_contains ''```'' s"
proof (induction s)
  case Nil
  then show ?case by simp
next
  case (Cons c cs)
  from Cons.prems consider "prefix ''```json'' (c # cs)" | "str_contains ''```json'' cs"
    by (auto simp del: Cons_prefix_Cons)
  then show ?case
  proof cases
    case 1
    then have "prefix ''```'' (c # cs)" using prefix_fence_json prefix_order.trans by blast
    then show ?thesis by (simp del: Cons_prefix_Cons)
  next
    case 2
    then show ?thesis using Cons.IH by (simp del: Cons_prefix_Cons)
  qed
qed

lemma before_first_prefix_keeps:
  assumes "\<not> prefix m (b # cs)" "prefix p cs"
  shows "\<not> prefix m (b # p)"
  using assms by (meson Cons_prefix_Cons prefix_order.trans)

lemma fenced_body:
  assumes "\<not> str_contains ''```'' (body @ ''``'')"
    and "\<not> prefix ''`json'' post" and "\<not> prefix ''``json'' post"
  shows "before_first ''```'' (before_first ''```json'' (body @ ''```'' @ post)) = body"
  using assms
proof (induction body)
  case Nil
  show ?case unfolding append_Nil by (rule fenced_body_empty [OF Nil.prems(2,3)])
next
  case (Cons b bs)
  let ?P = "before_first ''```json'' (bs @ ''```'' @ post)"
  have c: "str_contains ''```'' ((b # bs) @ ''``'') =
      (prefix ''```'' ((b # bs) @ ''``'') \<or> str_contains ''```'' (bs @ ''``''))"
    unfolding append_Cons by (rule str_contains.simps(2))
  have nf: "\<not> prefix ''```'' ((b # bs) @ ''``'')" using Cons.prems(1) c by blast
  have nc: "\<not> str_contains ''```'' (bs @ ''``'')" using Cons.prems(1) c by blast
  have "b # bs @ ''```'' @ post = ((b # bs) @ ''``'') @ (CHR 0x60 # post)" by simp
  then have rest: "prefix ((b # bs) @ ''``'') (b # bs @ ''```'' @ post)" by (metis prefixI)
  have nfr: "\<not> prefix ''```'' (b # bs @ ''```'' @ post)"
  proof
    assume a: "prefix ''```'' (b # bs @ ''```'' @ post)"
    have "length ''```'' \<le> length ((b # bs) @ ''``'')" by simp
    with a rest have "prefix ''```'' ((b # bs) @ ''``'')" using prefix_length_prefix by blast
    with nf show False by blast
  qed
  have nj: "\<not> prefix ''```json'' (b # bs @ ''```'' @ post)"
    using nfr prefix_fence_json prefix_order.trans by blast
  have np: "\<not> prefix ''```'' (b # ?P)"
    by (rule before_first_prefix_keeps [OF nfr prefix_before_first])
  have "before_first ''```json'' ((b # bs) @ ''```'' @ post) = b # ?P"
    using bf_step [OF nj] by (simp only: append_Cons)
  moreover have "before_first ''```'' (b # ?P) = b # before_first ''```'' ?P"
    by (rule bf_step [OF np])
  moreover have "before_first ''```'' ?P = bs"
    by (rule Cons.IH [OF nc Cons.prems(2,3)])
  ultimately show ?case by (simp only:)
qed

lemma extract_json_json:
  assumes "str_contains ''```json'' reply"
  shows "extract_json reply =
    Inr (strip (before_first ''```'' (before_first ''```json'' (after_first ''```json'' reply))))"
proof -
  have "''```json'' \<noteq> []" by simp
  from extract_fenced [OF this assms] assms show ?thesis
    by (simp only: extract_json_def if_True)
qed

lemma extract_json_plain:
  assumes "\<not> str_contains ''```json'' reply" "str_contains ''```'' reply"
  shows "extract_json reply = Inr (strip (before_first ''```'' (after_first ''```'' reply)))"
proof -
  have "''```'' \<noteq> []" by simp
  from extract_fenced [OF this assms(2)] assms show ?thesis
    by (simp only: extract_json_def if_True if_False before_first_idem)
qed

lemma extract_json_bare:
  assumes "\<not> str_contains ''```'' reply"
  shows "extract_json reply = Inr reply"
proof -
  have "\<not> str_contains ''```json'' reply" using assms contains_json_fence by blast
  with assms show ?thesis by (simp only: extract_json_def if_False)
qed

lemma extract_json_block:
  assumes "\<not> str_contains ''```json'' (pre @ ''```jso'')"
    and "\<not> str_contains ''```'' (body @ ''``'')"
    and "\<not> prefix ''`json'' post" and "\<not> prefix ''``json'' post"
  shows "extract_json (pre @ ''```json'' @ body @ ''```'' @ post) = Inr (strip body)"
proof -
  let ?r = "pre @ ''```json'' @ body @ ''```'' @ post"
  have ne: "''```json'' \<noteq> []" by simp
  have bl: "butlast ''```json'' = ''```jso''" by simp
  have np: "\<not> str_contains ''```json'' (pre @ butlast ''```json'')"
    unfolding bl by (rule assms(1))
  have "after_first ''```json'' ?r = body @ ''```'' @ post"
    by (rule first_occurrence [OF ne np, THEN conjunct2])
  moreover have "str_contains ''```json'' ?r"
    unfolding contains_iff by blast
  ultimately show ?thesis
    using extract_json_json [of ?r] fenced_body [OF assms(2,3,4)] by (simp only:)
qed

lemma extract_json_plain_block:
  assumes "\<not> str_contains ''```json'' (pre @ ''```'' @ body @ ''```'' @ post)"
    and "\<not> str_contains ''```'' (pre @ ''``'')"
    and "\<not> str_contains ''```'' (body @ ''``'')"
  shows "extract_json (pre @ ''```'' @ body @ ''```'' @ post) = Inr (strip body)"
proof -
  let ?r = "pre @ ''```'' @ body @ ''```'' @ post"
  have ne: "''```'' \<noteq> []" by simp
  have bl: "butlast ''```'' = ''``''" by simp
  have np: "\<not> str_contains ''```'' (pre @ butlast ''```'')"
    unfolding bl by (rule assms(2))
  have nb: "\<not> str_contains ''```'' (body @ butlast ''```'')"
    unfolding bl by (rule assms(3))
  have "after_first ''```'' ?r = body @ ''```'' @ post"
    by (rule first_occurrence [OF ne np, THEN conjunct2])
  moreover have "before_first ''```'' (body @ ''```'' @ post) = body"
    by (rule first_occurrence [OF ne nb, THEN conjunct1])
  moreover have "str_contains ''```'' ?r"
    unfolding contains_iff by blast
  ultimately show ?thesis
    using extract_json_plain [OF assms(1)] by (simp only:)
qed

text \<open>
  Claim C1, as the code has it. A reply that contains the marker \<open>```json\<close> yields the
  text behind the first such marker, up to the next \<open>```json\<close> marker and within that up
  to the first \<open>```\<close> marker (to the end where there is none), with leading and trailing
  whitespace stripped. A reply with a \<open>```\<close> marker and no \<open>```json\<close> marker yields
  the text between the first \<open>```\<close> and the next one (or the end), stripped. A reply
  with no marker is returned verbatim. In particular a reply \<open>pre ```json body ``` post\<close>
  whose first \<open>```json\<close> is the one shown, whose first \<open>```\<close> behind it is the one
  shown, and whose \<open>post\<close> does not continue that closing fence into a \<open>```json\<close>
  marker (by starting with one or two backticks and \<open>json\<close>) yields the stripped body,
  whatever else \<open>pre\<close> and \<open>post\<close> hold; likewise for a plain fenced block.
\<close>

theorem extract_json_precedence:
  "(str_contains ''```json'' reply \<longrightarrow>
      extract_json reply =
        Inr (strip (before_first ''```''
               (before_first ''```json'' (after_first ''```json'' reply))))) \<and>
   (\<not> str_contains ''```json'' reply \<and> str_contains ''```'' reply \<longrightarrow>
      extract_json reply = Inr (strip (before_first ''```'' (after_first ''```'' reply)))) \<and>
   (\<not> str_contains ''```'' reply \<longrightarrow> extract_json reply = Inr reply) \<and>
   (\<not> str_contains ''```json'' (pre @ ''```jso'') \<and> \<not> str_contains ''```'' (body @ ''``'') \<and>
    \<not> prefix ''`json'' post \<and> \<not> prefix ''``json'' post \<longrightarrow>
      extract_json (pre @ ''```json'' @ body @ ''```'' @ post) = Inr (strip body)) \<and>
   (\<not> str_contains ''```json'' (pre @ ''```'' @ body @ ''```'' @ post) \<and>
    \<not> str_contains ''```'' (pre @ ''``'') \<and> \<not> str_contains ''```'' (body @ ''``'') \<longrightarrow>
      extract_json (pre @ ''```'' @ body @ ''```'' @ post) = Inr (strip body))"
  using extract_json_json extract_json_plain extract_json_bare extract_json_block
    extract_json_plain_block
  by (intro conjI impI) (erule conjE | assumption)+

theorem extract_json_precedence_witness:
  "str_contains ''```json'' ''Sure!\<newline>```json\<newline>{\"a\": 1}\<newline>```\<newline>Done.'' \<and>
   extract_json ''Sure!\<newline>```json\<newline>{\"a\": 1}\<newline>```\<newline>Done.'' = Inr ''{\"a\": 1}'' \<and>
   \<not> str_contains ''```json'' ''x``` {} ```y'' \<and> str_contains ''```'' ''x``` {} ```y'' \<and>
   extract_json ''x``` {} ```y'' = Inr ''{}'' \<and>
   \<not> str_contains ''```'' '' {} '' \<and> extract_json '' {} '' = Inr '' {} '' \<and>
   \<not> str_contains ''```json'' (''Sure!\<newline>'' @ ''```jso'') \<and>
   \<not> str_contains ''```'' (''\<newline>{\"a\": 1}\<newline>'' @ ''``'') \<and>
   \<not> prefix ''`json'' ''\<newline>Done.'' \<and> \<not> prefix ''``json'' ''\<newline>Done.'' \<and>
   extract_json (''Sure!\<newline>'' @ ''```json'' @ ''\<newline>{\"a\": 1}\<newline>'' @ ''```'' @ ''\<newline>Done.'')
     = Inr ''{\"a\": 1}'' \<and>
   \<not> str_contains ''```json'' (''x'' @ ''```'' @ '' {} '' @ ''```'' @ ''y'') \<and>
   \<not> str_contains ''```'' (''x'' @ ''``'') \<and> \<not> str_contains ''```'' ('' {} '' @ ''``'') \<and>
   extract_json (''x'' @ ''```'' @ '' {} '' @ ''```'' @ ''y'') = Inr ''{}''"
  using extract_json_precedence [of "''Sure!\<newline>```json\<newline>{\"a\": 1}\<newline>```\<newline>Done.''"
          "''Sure!\<newline>''" "''\<newline>{\"a\": 1}\<newline>''" "''\<newline>Done.''"]
        extract_json_precedence [of "''x``` {} ```y''" "''x''" "'' {} ''" "''y''"]
        extract_json_precedence [of "'' {} ''"]
  by (simp add: strip_def is_space_def)

text \<open>
  Claim C1 as stated fails: the payload is not exactly the text between the markers.
  For the reply \<open>```json\<newline>{}\<newline>```\<close> the text between the markers is \<open>{}\<close> with a line
  break on both sides; the code returns \<open>{}\<close>.
\<close>

theorem extract_json_exact_counterexample:
  "extract_json ''```json\<newline>{}\<newline>```'' \<noteq> Inr (spec_payload ''```json\<newline>{}\<newline>```'') \<and>
   spec_payload ''```json\<newline>{}\<newline>```'' = ''\<newline>{}\<newline>'' \<and>
   extract_json ''```json\<newline>{}\<newline>```'' = Inr ''{}''"
  by (simp add: extract_json_def split_py_def getitem_def bindE_def strip_def is_space_def
      spec_payload_def)

lemma split_py_parts:
  assumes "sep \<noteq> []" "str_contains sep s"
  shows "\<exists>parts. split_py s sep = Inr parts \<and> 2 \<le> length parts"
  using assms split_loop_length [OF assms, of "[]"] by (simp add: split_py_def)

lemma split_py_first: "\<exists>inner. split_py part ''```'' = Inr inner \<and> 1 \<le> length inner"
  using split_loop_nonempty [of "''```''" "[]" part]
  by (cases "split_loop ''```'' [] part") (simp_all add: split_py_def)

lemma extract_json_returns: "\<exists>payload. extract_json content = Inr payload"
proof (cases "str_contains ''```json'' content")
  case True
  then show ?thesis using extract_json_json by blast
next
  case False
  show ?thesis
  proof (cases "str_contains ''```'' content")
    case True
    with False show ?thesis using extract_json_plain by blast
  next
    case False
    then show ?thesis using extract_json_bare by blast
  qed
qed

lemma extract_json_open_end:
  assumes "\<not> str_contains ''```json'' (pre @ ''```jso'')"
  shows "extract_json (pre @ ''```json'') = Inr []"
proof -
  have ne: "''```json'' \<noteq> []" by simp
  have bl: "butlast ''```json'' = ''```jso''" by simp
  have np: "\<not> str_contains ''```json'' (pre @ butlast ''```json'')"
    unfolding bl by (rule assms)
  have "after_first ''```json'' (pre @ ''```json'' @ []) = []"
    by (rule first_occurrence [OF ne np, THEN conjunct2])
  moreover have "str_contains ''```json'' (pre @ ''```json'' @ [])"
    unfolding contains_iff by blast
  ultimately have "extract_json (pre @ ''```json'' @ []) = Inr (strip [])"
    using extract_json_json [of "pre @ ''```json'' @ []"] by (simp only: before_first.simps)
  then show ?thesis by (simp only: append_Nil2 strip_def dropWhile.simps rev.simps)
qed

text \<open>
  Claim C10: \<open>extract_json\<close> returns a string for every input and never raises. Where
  the reply contains a marker, splitting on it gives at least two parts, so index 1
  exists; a split always has a part 0; a reply with no fence marker is returned
  unchanged; a reply that ends at its first \<open>```json\<close> marker yields the empty payload.
\<close>

theorem extract_json_total:
  "(\<exists>payload. extract_json content = Inr payload) \<and>
   (str_contains ''```json'' content \<longrightarrow>
      (\<exists>parts. split_py content ''```json'' = Inr parts \<and> 2 \<le> length parts)) \<and>
   (str_contains ''```'' content \<longrightarrow>
      (\<exists>parts. split_py content ''```'' = Inr parts \<and> 2 \<le> length parts)) \<and>
   (\<exists>inner. split_py part ''```'' = Inr inner \<and> 1 \<le> length inner) \<and>
   (\<not> str_contains ''```'' content \<longrightarrow> extract_json content = Inr content) \<and>
   (\<not> str_contains ''```json'' (pre @ ''```jso'') \<longrightarrow> extract_json (pre @ ''```json'') = Inr [])"
proof (intro conjI impI)
  show "\<exists>payload. extract_json content = Inr payload" by (rule extract_json_returns)
  show "\<exists>inner. split_py part ''```'' = Inr inner \<and> 1 \<le> length inner" by (rule split_py_first)
next
  assume "str_contains ''```json'' content"
  then show "\<exists>parts. split_py content ''```json'' = Inr parts \<and> 2 \<le> length parts"
    by (intro split_py_parts) simp_all
next
  assume "str_contains ''```'' content"
  then show "\<exists>parts. split_py content ''```'' = Inr parts \<and> 2 \<le> length parts"
    by (intro split_py_parts) simp_all
next
  assume "\<not> str_contains ''```'' content"
  then show "extract_json content = Inr content" by (rule extract_json_bare)
next
  assume "\<not> str_contains ''```json'' (pre @ ''```jso'')"
  then show "extract_json (pre @ ''```json'') = Inr []" by (rule extract_json_open_end)
qed

theorem extract_json_total_witness:
  "(\<exists>payload. extract_json ''see ```json\<newline>[1]``` and ```'' = Inr payload) \<and>
   str_contains ''```json'' ''see ```json\<newline>[1]``` and ```'' \<and>
   (\<exists>parts. split_py ''see ```json\<newline>[1]``` and ```'' ''```json'' = Inr parts \<and> 2 \<le> length parts) \<and>
   str_contains ''```'' ''see ```json\<newline>[1]``` and ```'' \<and>
   (\<exists>parts. split_py ''see ```json\<newline>[1]``` and ```'' ''```'' = Inr parts \<and> 2 \<le> length parts) \<and>
   \<not> str_contains ''```'' ''[1]'' \<and> extract_json ''[1]'' = Inr ''[1]'' \<and>
   \<not> str_contains ''```json'' (''see '' @ ''```jso'') \<and>
   extract_json (''see '' @ ''```json'') = Inr []"
  using extract_json_total [of "''see ```json\<newline>[1]``` and ```''" "[]" "''see ''"]
        extract_json_total [of "''[1]''" "[]" "[]"]
  by simp

section \<open>Properties of the voice mapper\<close>

lemma monologue_loop_miss: "s \<notin> set ss \<Longrightarrow> monologue_loop ss h vm s = vm s"
  by (induction ss arbitrary: vm) auto

lemma monologue_loop_hit: "s \<in> set ss \<Longrightarrow> monologue_loop ss h vm s = Some h"
proof (induction ss arbitrary: vm)
  case Nil
  then show ?case by simp
next
  case (Cons a ss)
  show ?case
  proof (cases "s \<in> set ss")
    case True
    then show ?thesis using Cons.IH by simp
  next
    case False
    with Cons.prems have "s = a" by simp
    with False show ?thesis by (simp add: monologue_loop_miss)
  qed
qed

lemma dom_monologue_loop: "dom (monologue_loop ss h vm) = dom vm \<union> set ss"
  by (induction ss arbitrary: vm) auto

lemma extras_loop_miss: "s \<notin> set ss \<Longrightarrow> extras_loop i ss h g vm s = vm s"
  by (induction ss arbitrary: i vm) auto

lemma dom_extras_loop: "dom (extras_loop i ss h g vm) = dom vm \<union> set ss"
  by (induction ss arbitrary: i vm) auto

lemma extras_loop_nth:
  "distinct ss \<Longrightarrow> k < length ss \<Longrightarrow>
   extras_loop i ss h g vm (ss ! k) = Some (if (i + k) mod 2 = 0 then h else g)"
proof (induction ss arbitrary: i k vm)
  case Nil
  then show ?case by simp
next
  case (Cons a ss)
  show ?case
  proof (cases k)
    case 0
    with Cons.prems show ?thesis by (simp add: extras_loop_miss)
  next
    case (Suc j)
    with Cons.prems have "extras_loop (Suc i) ss h g (vm(a \<mapsto> (if i mod 2 = 0 then h else g))) (ss ! j)
        = Some (if (Suc i + j) mod 2 = 0 then h else g)"
      by (intro Cons.IH) simp_all
    with Suc show ?thesis by simp
  qed
qed

lemma dom_voice_mapping_of: "dom (voice_mapping_of sl h g m) = set sl"
proof (cases m)
  case True
  then show ?thesis by (simp add: voice_mapping_of_def dom_monologue_loop)
next
  case False
  show ?thesis
  proof (cases sl)
    case Nil
    with False show ?thesis by (simp add: voice_mapping_of_def)
  next
    case (Cons a as)
    note c1 = this
    show ?thesis
    proof (cases as)
      case Nil
      with c1 False show ?thesis by (simp add: voice_mapping_of_def)
    next
      case (Cons b bs)
      with c1 False show ?thesis
        by (auto simp add: voice_mapping_of_def Let_def dom_extras_loop)
    qed
  qed
qed

lemma dialogue_nth:
  assumes "distinct sl" "k < length sl"
  shows "voice_mapping_of sl h g False (sl ! k) = Some (if k mod 2 = 0 then h else g)"
proof (cases sl)
  case Nil
  with assms show ?thesis by simp
next
  case (Cons a as)
  note c1 = this
  show ?thesis
  proof (cases as)
    case Nil
    with c1 assms show ?thesis by (simp add: voice_mapping_of_def)
  next
    case (Cons b bs)
    note c2 = this
    have d: "distinct bs" "a \<notin> set bs" "b \<notin> set bs" "a \<noteq> b" using assms(1) c1 c2 by auto
    consider "k = 0" | "k = 1" | j where "k = Suc (Suc j)" "j < length bs"
      using assms(2) c1 c2 by (cases k; cases "k - 1") auto
    then show ?thesis
    proof cases
      case 1
      with c1 c2 d show ?thesis by (simp add: voice_mapping_of_def Let_def extras_loop_miss)
    next
      case 2
      with c1 c2 d show ?thesis by (simp add: voice_mapping_of_def Let_def extras_loop_miss)
    next
      case 3
      have "extras_loop 2 bs h g [a \<mapsto> h, b \<mapsto> g] (bs ! j) = Some (if (2 + j) mod 2 = 0 then h else g)"
        using d(1) 3(2) by (rule extras_loop_nth)
      with 3 c1 c2 show ?thesis by (simp add: voice_mapping_of_def Let_def)
    qed
  qed
qed

lemma two_element_list:
  assumes "distinct sl" "set sl = {a, b}" "a \<noteq> b"
  shows "sl = [a, b] \<or> sl = [b, a]"
proof -
  have "length sl = card {a, b}" using assms(1,2) distinct_card by fastforce
  then have "length sl = 2" using assms(3) by simp
  then obtain x y where sl: "sl = [x, y]"
    by (metis (no_types, opaque_lifting) length_0_conv length_Suc_conv numeral_2_eq_2)
  with assms(2) have "{x, y} = {a, b}" by simp
  then show ?thesis using sl assms(3) by (auto simp: doubleton_eq_iff)
qed

text \<open>
  Claim C6: a script whose speakers are exactly "Adam" and "Bella", in dialogue mode
  with host voice \<open>X\<close> and guest voice \<open>Y\<close>, gets a voice mapping with exactly these two
  keys, one mapped to \<open>X\<close> and the other to \<open>Y\<close>.
\<close>

theorem dialogue_two_speakers:
  assumes "set_semantics e (map speaker (lines conversation))"
    and "set (map speaker (lines conversation)) = {JStr ''Adam'', JStr ''Bella''}"
    and "vm = voice_mapping_of (set_iter e (map speaker (lines conversation))) X Y False"
  shows "dom vm = {JStr ''Adam'', JStr ''Bella''} \<and> card (dom vm) = 2 \<and>
         ((vm (JStr ''Adam'') = Some X \<and> vm (JStr ''Bella'') = Some Y) \<or>
          (vm (JStr ''Adam'') = Some Y \<and> vm (JStr ''Bella'') = Some X))"
proof -
  let ?sl = "set_iter e (map speaker (lines conversation))"
  have d: "distinct ?sl" and s: "set ?sl = {JStr ''Adam'', JStr ''Bella''}"
    using assms(1,2) by (simp_all add: set_semantics_def)
  have ne: "JStr ''Adam'' \<noteq> JStr ''Bella''" by simp
  have dm: "dom vm = {JStr ''Adam'', JStr ''Bella''}"
    using s by (simp only: assms(3) dom_voice_mapping_of)
  have c: "card (dom vm) = 2" unfolding dm using ne by simp
  from two_element_list [OF d s ne]
  have "(vm (JStr ''Adam'') = Some X \<and> vm (JStr ''Bella'') = Some Y) \<or>
        (vm (JStr ''Adam'') = Some Y \<and> vm (JStr ''Bella'') = Some X)"
  proof
    assume l: "?sl = [JStr ''Adam'', JStr ''Bella'']"
    have "vm (?sl ! 0) = Some X" "vm (?sl ! 1) = Some Y"
      using dialogue_nth [OF d, of 0 X Y] dialogue_nth [OF d, of 1 X Y] l
      by (simp_all add: assms(3))
    then show ?thesis using l by simp
  next
    assume l: "?sl = [JStr ''Bella'', JStr ''Adam'']"
    have "vm (?sl ! 0) = Some X" "vm (?sl ! 1) = Some Y"
      using dialogue_nth [OF d, of 0 X Y] dialogue_nth [OF d, of 1 X Y] l
      by (simp_all add: assms(3))
    then show ?thesis using l by simp
  qed
  with dm c show ?thesis by blast
qed

lemmas example_defs = example_env_def example_script_def example_lines_def

theorem dialogue_two_speakers_witness:
  "set_semantics example_env (map speaker (lines example_script)) \<and>
   set (map speaker (lines example_script)) = {JStr ''Adam'', JStr ''Bella''} \<and>
   dom (voice_mapping_of (set_iter example_env (map speaker (lines example_script)))
          ''Patient_Man'' ''Wise_Woman'' False) = {JStr ''Adam'', JStr ''Bella''} \<and>
   card (dom (voice_mapping_of (set_iter example_env (map speaker (lines example_script)))
          ''Patient_Man'' ''Wise_Woman'' False)) = 2 \<and>
   voice_mapping_of (set_iter example_env (map speaker (lines example_script)))
          ''Patient_Man'' ''Wise_Woman'' False (JStr ''Adam'') = Some ''Patient_Man'' \<and>
   voice_mapping_of (set_iter example_env (map speaker (lines example_script)))
          ''Patient_Man'' ''Wise_Woman'' False (JStr ''Bella'') = Some ''Wise_Woman''"
proof -
  have h1: "set_semantics example_env (map speaker (lines example_script))"
    by (auto simp add: set_semantics_def example_defs)
  have h2: "set (map speaker (lines example_script)) = {JStr ''Adam'', JStr ''Bella''}"
    by (auto simp add: example_defs)
  have v: "voice_mapping_of (set_iter example_env (map speaker (lines example_script)))
          ''Patient_Man'' ''Wise_Woman'' False (JStr ''Adam'') = Some ''Patient_Man''"
     "voice_mapping_of (set_iter example_env (map speaker (lines example_script)))
          ''Patient_Man'' ''Wise_Woman'' False (JStr ''Bella'') = Some ''Wise_Woman''"
    by (simp_all add: example_defs voice_mapping_of_def)
  show ?thesis
    using h1 h2 v dialogue_two_speakers [OF h1 h2 refl, of "''Patient_Man''" "''Wise_Woman''"]
    by simp
qed

text \<open>
  Claim C7: in monologue mode every speaker of every line is mapped to the host voice;
  a script with a single speaker \<open>s\<close> gets exactly the mapping of \<open>s\<close> to the host voice;
  and the mapping is the same whatever the guest voice is.
\<close>

theorem monologue_all_host:
  assumes "set_semantics e (map speaker (lines conversation))"
    and "vm = voice_mapping_of (set_iter e (map speaker (lines conversation)))
               host_voice guest_voice True"
  shows "(\<forall>entry \<in> set (lines conversation). vm (speaker entry) = Some host_voice) \<and>
         (set (map speaker (lines conversation)) = {s} \<longrightarrow> vm = [s \<mapsto> host_voice]) \<and>
         vm = voice_mapping_of (set_iter e (map speaker (lines conversation)))
                host_voice other_voice True"
proof (intro conjI ballI impI)
  let ?sl = "set_iter e (map speaker (lines conversation))"
  have s: "set ?sl = set (map speaker (lines conversation))"
    using assms(1) by (simp add: set_semantics_def)
  have vm: "vm = monologue_loop ?sl host_voice Map.empty"
    by (simp add: assms(2) voice_mapping_of_def)
  show "vm = voice_mapping_of ?sl host_voice other_voice True"
    by (simp add: vm voice_mapping_of_def)
  { fix entry assume "entry \<in> set (lines conversation)"
    then have "speaker entry \<in> set ?sl" using s by simp
    then show "vm (speaker entry) = Some host_voice"
      unfolding vm by (rule monologue_loop_hit) }
  { assume one: "set (map speaker (lines conversation)) = {s}"
    show "vm = [s \<mapsto> host_voice]"
    proof
      fix k
      show "vm k = [s \<mapsto> host_voice] k"
      proof (cases "k = s")
        case True
        then have "k \<in> set ?sl" using s one by simp
        then have "vm k = Some host_voice" unfolding vm by (rule monologue_loop_hit)
        with True show ?thesis by simp
      next
        case False
        then have "k \<notin> set ?sl" using s one by simp
        then have "vm k = None" unfolding vm by (simp add: monologue_loop_miss)
        with False show ?thesis by simp
      qed
    qed }
qed

theorem monologue_all_host_witness:
  "set_semantics example_env (map speaker (lines solo_script)) \<and>
   voice_mapping_of (set_iter example_env (map speaker (lines solo_script)))
     ''Patient_Man'' ''Wise_Woman'' True (JStr ''Adam'') = Some ''Patient_Man'' \<and>
   set (map speaker (lines solo_script)) = {JStr ''Adam''} \<and>
   voice_mapping_of (set_iter example_env (map speaker (lines solo_script)))
     ''Patient_Man'' ''Wise_Woman'' True = [JStr ''Adam'' \<mapsto> ''Patient_Man''] \<and>
   voice_mapping_of (set_iter example_env (map speaker (lines solo_script)))
     ''Patient_Man'' ''Wise_Woman'' True =
   voice_mapping_of (set_iter example_env (map speaker (lines solo_script)))
     ''Patient_Man'' ''Calm_Woman'' True"
proof -
  have h1: "set_semantics example_env (map speaker (lines solo_script))"
    by (simp add: set_semantics_def example_env_def solo_script_def)
  have h2: "set (map speaker (lines solo_script)) = {JStr ''Adam''}"
    by (simp add: solo_script_def)
  have h3: "\<lparr>text = JStr ''Hello.'', speaker = JStr ''Adam''\<rparr> \<in> set (lines solo_script)"
    by (simp add: solo_script_def)
  show ?thesis
    using h1 h2 h3
      monologue_all_host [OF h1 refl, of "''Patient_Man''" "''Wise_Woman''" "JStr ''Adam''" "''Calm_Woman''"]
    by auto
qed

text \<open>
  Claim C8: in dialogue mode with more than two distinct speakers, the enumerated
  speaker list has one position per distinct speaker, position 0 is mapped to the host
  voice, position 1 to the guest voice, and every position \<open>i \<ge> 2\<close> to the host voice
  when \<open>i\<close> is even and to the guest voice when \<open>i\<close> is odd.
\<close>

theorem dialogue_extra_speakers:
  assumes "set_semantics e (map speaker (lines conversation))"
    and "speaker_list = set_iter e (map speaker (lines conversation))"
    and "2 < card (set (map speaker (lines conversation)))"
    and "vm = voice_mapping_of speaker_list host_voice guest_voice False"
    and "2 \<le> i" and "i < length speaker_list"
  shows "length speaker_list = card (set (map speaker (lines conversation))) \<and>
         vm (speaker_list ! 0) = Some host_voice \<and>
         vm (speaker_list ! 1) = Some guest_voice \<and>
         vm (speaker_list ! i) = Some (if i mod 2 = 0 then host_voice else guest_voice)"
proof -
  have d: "distinct speaker_list"
    and s: "set speaker_list = set (map speaker (lines conversation))"
    using assms(1,2) by (simp_all add: set_semantics_def)
  have len: "length speaker_list = card (set (map speaker (lines conversation)))"
    using d s distinct_card by fastforce
  then have l2: "2 < length speaker_list" using assms(3) by simp
  have l0: "0 < length speaker_list" and l1: "1 < length speaker_list" using l2 by linarith+
  have "vm (speaker_list ! 0) = Some host_voice"
    using dialogue_nth [OF d l0, of host_voice guest_voice] by (simp add: assms(4))
  moreover have "vm (speaker_list ! 1) = Some guest_voice"
    using dialogue_nth [OF d l1, of host_voice guest_voice] by (simp add: assms(4))
  moreover have "vm (speaker_list ! i) = Some (if i mod 2 = 0 then host_voice else guest_voice)"
    unfolding assms(4) by (rule dialogue_nth [OF d assms(6)])
  ultimately show ?thesis using len by blast
qed

theorem dialogue_extra_speakers_witness:
  "set_semantics example_env (map speaker (lines panel_script)) \<and>
   set_iter example_env (map speaker (lines panel_script)) =
     [JStr ''Adam'', JStr ''Bella'', JStr ''Carl'', JStr ''Dana''] \<and>
   2 < card (set (map speaker (lines panel_script))) \<and>
   (2::nat) \<le> 2 \<and> (2::nat) \<le> 3 \<and>
   3 < length (set_iter example_env (map speaker (lines panel_script))) \<and>
   voice_mapping_of (set_iter example_env (map speaker (lines panel_script)))
     ''Patient_Man'' ''Wise_Woman'' False (JStr ''Adam'') = Some ''Patient_Man'' \<and>
   voice_mapping_of (set_iter example_env (map speaker (lines panel_script)))
     ''Patient_Man'' ''Wise_Woman'' False (JStr ''Bella'') = Some ''Wise_Woman'' \<and>
   voice_mapping_of (set_iter example_env (map speaker (lines panel_script)))
     ''Patient_Man'' ''Wise_Woman'' False (JStr ''Carl'') = Some ''Patient_Man'' \<and>
   voice_mapping_of (set_iter example_env (map speaker (lines panel_script)))
     ''Patient_Man'' ''Wise_Woman'' False (JStr ''Dana'') = Some ''Wise_Woman''"
proof -
  let ?sl = "set_iter example_env (map speaker (lines panel_script))"
  have h1: "set_semantics example_env (map speaker (lines panel_script))"
    by (auto simp add: set_semantics_def example_env_def panel_script_def)
  have sl: "?sl = [JStr ''Adam'', JStr ''Bella'', JStr ''Carl'', JStr ''Dana'']"
    by (simp add: example_env_def panel_script_def)
  have d: "distinct ?sl" and s: "set ?sl = set (map speaker (lines panel_script))"
    using h1 by (simp_all only: set_semantics_def)
  have "card (set (map speaker (lines panel_script))) = length ?sl"
    using distinct_card [OF d] by (simp only: s)
  then have h3: "2 < card (set (map speaker (lines panel_script)))" by (simp only: sl) simp
  have i2: "(2::nat) \<le> 2" and i3: "(2::nat) \<le> 3" by simp_all
  have l2: "2 < length ?sl" and l3: "3 < length ?sl" by (simp_all add: sl)
  show ?thesis
    using h1 sl h3 l3
      dialogue_extra_speakers [OF h1 refl h3 refl i2 l2, of "''Patient_Man''" "''Wise_Woman''"]
      dialogue_extra_speakers [OF h1 refl h3 refl i3 l3, of "''Patient_Man''" "''Wise_Woman''"]
    by simp
qed

lemma lookup_dom: "k \<in> dom d \<Longrightarrow> \<exists>v. lookup d k = Inr v"
  by (auto simp: lookup_def)

lemma dispatch_loop_failure:
  assumes "\<forall>entry \<in> set ls. speaker entry \<in> dom vm"
    and "dispatch_loop e vm ls acc w = (Inl err, w')"
  shows "\<exists>w0 t v. tts_start e w0 t v = Inl err"
  using assms
proof (induction ls arbitrary: acc w)
  case Nil
  then show ?case by (simp add: returnW_def)
next
  case (Cons entry rest)
  from Cons.prems(1) obtain voice where v: "lookup vm (speaker entry) = Inr voice"
    using lookup_dom by fastforce
  show ?case
  proof (cases "tts_start e w (text entry) voice")
    case (Inl x)
    with Cons.prems(2) v have "x = err"
      by (simp add: bindW_def liftW_def call_def)
    with Inl show ?thesis by blast
  next
    case (Inr task)
    with Cons.prems(2) v have
      "dispatch_loop e vm rest (acc @ [task])
         (w\<lparr>trace := trace w @ [TtsStart (text entry) voice]\<rparr>) = (Inl err, w')"
      by (simp add: bindW_def liftW_def call_def)
    moreover have "\<forall>entry \<in> set rest. speaker entry \<in> dom vm" using Cons.prems(1) by simp
    ultimately show ?thesis using Cons.IH by blast
  qed
qed

text \<open>
  Claim C9: in either mode the keys of the voice mapping are exactly the speakers of
  the script's lines, so the lookup of a line's speaker always finds a voice, and the
  dispatch loop can only fail where the synthesis service does.
\<close>

theorem voice_mapping_covers_speakers:
  assumes "set_semantics e (map speaker (lines conversation))"
    and "vm = voice_mapping_of (set_iter e (map speaker (lines conversation)))
               host_voice guest_voice monologue"
  shows "dom vm = speaker ` set (lines conversation) \<and>
         (\<forall>entry \<in> set (lines conversation). \<exists>voice. lookup vm (speaker entry) = Inr voice) \<and>
         (\<forall>acc w err w'. dispatch_loop e vm (lines conversation) acc w = (Inl err, w') \<longrightarrow>
            (\<exists>w0 t v. tts_start e w0 t v = Inl err))"
proof -
  have dm: "dom vm = speaker ` set (lines conversation)"
    using assms(1) by (simp add: assms(2) dom_voice_mapping_of set_semantics_def)
  then have all: "\<forall>entry \<in> set (lines conversation). speaker entry \<in> dom vm" by simp
  then have "\<forall>entry \<in> set (lines conversation). \<exists>voice. lookup vm (speaker entry) = Inr voice"
    using lookup_dom by blast
  moreover have "\<forall>acc w err w'. dispatch_loop e vm (lines conversation) acc w = (Inl err, w') \<longrightarrow>
            (\<exists>w0 t v. tts_start e w0 t v = Inl err)"
    using dispatch_loop_failure [OF all] by blast
  ultimately show ?thesis using dm by blast
qed

theorem voice_mapping_covers_speakers_witness:
  "set_semantics example_env (map speaker (lines example_script)) \<and>
   dom (voice_mapping_of (set_iter example_env (map speaker (lines example_script)))
          ''Patient_Man'' ''Wise_Woman'' False) = speaker ` set (lines example_script) \<and>
   \<lparr>text = JStr ''Thanks.'', speaker = JStr ''Bella''\<rparr> \<in> set (lines example_script) \<and>
   (\<exists>voice. lookup (voice_mapping_of (set_iter example_env (map speaker (lines example_script)))
          ''Patient_Man'' ''Wise_Woman'' False) (JStr ''Bella'') = Inr voice)"
proof -
  have h1: "set_semantics example_env (map speaker (lines example_script))"
    by (auto simp add: set_semantics_def example_defs)
  have h2: "\<lparr>text = JStr ''Thanks.'', speaker = JStr ''Bella''\<rparr> \<in> set (lines example_script)"
    by (simp add: example_defs)
  show ?thesis
    using h1 h2
      voice_mapping_covers_speakers [OF h1 refl, of "''Patient_Man''" "''Wise_Woman''" False]
    by fastforce
qed

section \<open>Properties of the content planner\<close>

lemma emitsI:
  assumes "\<And>w. \<exists>evs. trace (snd (m w)) = trace w @ evs \<and> list_all P evs"
  shows "emits P m"
  using assms by (simp add: emits_def)

lemma emitsD: "emits P m \<Longrightarrow> \<exists>evs. trace (snd (m w)) = trace w @ evs \<and> list_all P evs"
  by (simp add: emits_def)

lemma emits_returnW: "emits P (returnW x)"
  by (simp add: emits_def returnW_def)

lemma emits_raiseW: "emits P (raiseW x)"
  by (simp add: emits_def raiseW_def)

lemma emits_liftW: "emits P (liftW x)"
  by (simp add: emits_def liftW_def)

lemma emits_emit: "P ev \<Longrightarrow> emits P (emit ev)"
  by (simp add: emits_def emit_def)

lemma emits_print: "P (Print s) \<Longrightarrow> emits P (print s)"
  by (simp add: print_def emits_emit)

lemma emits_call: "P ev \<Longrightarrow> emits P (call ev service)"
  by (simp add: emits_def call_def)

lemma emits_write_bytes: "P (WriteFile (absolute (cwd e) p) c) \<Longrightarrow> emits P (write_bytes e p c)"
  by (simp add: emits_def write_bytes_def)

lemma emits_read_text: "emits P (read_text e p)"
  by (simp add: emits_def read_text_def split: option.splits)

lemma emits_subprocess_run: "P (Run argv) \<Longrightarrow> emits P (subprocess_run e argv)"
  by (simp add: emits_def subprocess_run_def split: sum.splits prod.splits)

lemma emits_bindW:
  assumes "emits P m" and "\<And>x. emits P (f x)"
  shows "emits P (bindW m f)"
proof (rule emitsI)
  fix w
  obtain r w1 where mw: "m w = (r, w1)" by (cases "m w")
  from emitsD [OF assms(1), of w] obtain evs1 where
    e1: "trace w1 = trace w @ evs1" "list_all P evs1"
    using mw by auto
  show "\<exists>evs. trace (snd (bindW m f w)) = trace w @ evs \<and> list_all P evs"
  proof (cases r)
    case (Inl err)
    with mw e1 show ?thesis by (simp add: bindW_def)
  next
    case (Inr x)
    from emitsD [OF assms(2), of x w1] obtain evs2 where
      e2: "trace (snd (f x w1)) = trace w1 @ evs2" "list_all P evs2"
      by auto
    with Inr mw e1 have "trace (snd (bindW m f w)) = trace w @ (evs1 @ evs2)"
      by (simp add: bindW_def)
    moreover have "list_all P (evs1 @ evs2)" using e1 e2 by simp
    ultimately show ?thesis by blast
  qed
qed

lemma bind_call_first:
  assumes "\<And>x. emits P (f x)"
  shows "\<exists>evs. trace (snd (bindW (call ev service) f w)) = trace w @ ev # evs \<and> list_all P evs"
proof (cases "service w")
  case (Inl err)
  then show ?thesis by (simp add: bindW_def call_def)
next
  case (Inr x)
  from emitsD [OF assms, of x "w\<lparr>trace := trace w @ [ev]\<rparr>"] obtain evs where
    "trace (snd (f x (w\<lparr>trace := trace w @ [ev]\<rparr>))) = (trace w @ [ev]) @ evs" "list_all P evs"
    by auto
  with Inr show ?thesis by (simp add: bindW_def call_def)
qed

lemma all_pdf_text_loop_concat:
  "all_pdf_text_loop docs acc =
     acc @ concat (map (\<lambda>pdf. ''\<newline>\<newline>Document: '' @ filename pdf @ ''\<newline>'' @
                              take 5000 (markdown pdf) @ ''\<newline>\<newline>'') docs)"
  by (induction docs arbitrary: acc) simp_all

lemma truncate_context_long:
  assumes "24000 < length x"
  shows "truncate_context x = take 24000 x @ ''\<newline>\<newline>[truncated due to length]\<newline>''"
    and "length (take 24000 x) = 24000"
  using assms by (simp_all add: truncate_context_def Let_def)

lemma truncate_context_short: "length x \<le> 24000 \<Longrightarrow> truncate_context x = x"
  by (simp add: truncate_context_def Let_def)

lemmas emits_intros = emits_bindW emits_call emits_print emits_liftW emits_returnW emits_raiseW
  emits_write_bytes emits_read_text emits_subprocess_run

lemma emits_download:
  "P (HttpGet url) \<Longrightarrow> (\<And>c. P (WriteFile (absolute (cwd e) p) c)) \<Longrightarrow> emits P (download e url p)"
  unfolding download_def by (intro emits_intros) simp_all

lemma emits_process_pdfs_loop:
  "emits (\<lambda>ev. \<not> is_synthesis ev) (process_pdfs_loop e n i pdfs results)"
proof (induction pdfs arbitrary: i results)
  case Nil
  show ?case by (simp add: emits_returnW)
next
  case (Cons p ps)
  show ?case
    unfolding process_pdfs_loop.simps
    by (intro emits_intros emits_download Cons.IH) simp_all
qed

lemma emits_process_pdfs: "emits (\<lambda>ev. \<not> is_synthesis ev) (process_pdfs e pdfs)"
  unfolding process_pdfs_def by (rule emits_process_pdfs_loop)

lemma emits_generate_podcast_content:
  "emits (\<lambda>ev. \<not> is_synthesis ev)
     (generate_podcast_content e pdf_metadata host_name guest_name duration_minutes
        podcast_topic monologue)"
  unfolding generate_podcast_content_def Let_def
  by (intro emits_intros) simp_all

lemma first_prompt:
  "\<exists>rest. trace (snd (generate_podcast_content e pdf_metadata host_name guest_name
              duration_minutes podcast_topic monologue w)) =
     trace w @ Llm (summary_prompt (truncate_context (all_pdf_text_loop pdf_metadata []))) # rest"
proof -
  have "\<exists>evs. trace (snd (generate_podcast_content e pdf_metadata host_name guest_name
              duration_minutes podcast_topic monologue w)) =
     trace w @ Llm (summary_prompt (truncate_context (all_pdf_text_loop pdf_metadata []))) # evs
     \<and> list_all (\<lambda>ev. True) evs"
    unfolding generate_podcast_content_def Let_def
    by (rule bind_call_first) (intro emits_intros, simp_all)
  then show ?thesis by blast
qed

text \<open>
  Claim C2: the context of the summarisation prompt is the concatenation, in order, of
  one block per document holding the document's name and the first 5000 characters
  of its text (all of it when it is shorter). When that concatenation is longer than
  24000 characters, what goes into the prompt is its first 24000 characters, exactly,
  followed by the truncation marker; otherwise it goes in unchanged. This text is
  what the first generation request carries, embedded whole in the prompt.
\<close>

theorem summarization_input:
  "all_pdf_text_loop pdf_metadata [] =
     concat (map (\<lambda>pdf. ''\<newline>\<newline>Document: '' @ filename pdf @ ''\<newline>'' @
                          take 5000 (markdown pdf) @ ''\<newline>\<newline>'') pdf_metadata) \<and>
   (\<forall>pdf \<in> set pdf_metadata. length (take 5000 (markdown pdf)) \<le> 5000) \<and>
   (24000 < length (all_pdf_text_loop pdf_metadata []) \<longrightarrow>
      truncate_context (all_pdf_text_loop pdf_metadata []) =
        take 24000 (all_pdf_text_loop pdf_metadata []) @
        ''\<newline>\<newline>[truncated due to length]\<newline>'' \<and>
      length (take 24000 (all_pdf_text_loop pdf_metadata [])) = 24000) \<and>
   (length (all_pdf_text_loop pdf_metadata []) \<le> 24000 \<longrightarrow>
      truncate_context (all_pdf_text_loop pdf_metadata []) = all_pdf_text_loop pdf_metadata []) \<and>
   (\<exists>rest. trace (snd (generate_podcast_content e pdf_metadata host_name guest_name
                 duration_minutes podcast_topic monologue w)) =
      trace w @
      Llm (summary_prompt (truncate_context (all_pdf_text_loop pdf_metadata []))) # rest) \<and>
   (\<exists>before after. \<forall>x. summary_prompt x = before @ x @ after)"
proof (intro conjI impI ballI)
  show "all_pdf_text_loop pdf_metadata [] =
     concat (map (\<lambda>pdf. ''\<newline>\<newline>Document: '' @ filename pdf @ ''\<newline>'' @
                          take 5000 (markdown pdf) @ ''\<newline>\<newline>'') pdf_metadata)"
    using all_pdf_text_loop_concat [of pdf_metadata "[]"] by simp
  show "\<exists>rest. trace (snd (generate_podcast_content e pdf_metadata host_name guest_name
                 duration_minutes podcast_topic monologue w)) =
      trace w @
      Llm (summary_prompt (truncate_context (all_pdf_text_loop pdf_metadata []))) # rest"
    by (rule first_prompt)
  show "\<exists>before after. \<forall>x. summary_prompt x = before @ x @ after"
    unfolding summary_prompt_def by (metis append_assoc)
next
  fix pdf :: PDFMetadata
  show "length (take 5000 (markdown pdf)) \<le> 5000" by simp
next
  assume "24000 < length (all_pdf_text_loop pdf_metadata [])"
  then show "truncate_context (all_pdf_text_loop pdf_metadata []) =
        take 24000 (all_pdf_text_loop pdf_metadata []) @
        ''\<newline>\<newline>[truncated due to length]\<newline>''"
    and "length (take 24000 (all_pdf_text_loop pdf_metadata [])) = 24000"
    by (rule truncate_context_long)+
next
  assume "length (all_pdf_text_loop pdf_metadata []) \<le> 24000"
  then show "truncate_context (all_pdf_text_loop pdf_metadata []) = all_pdf_text_loop pdf_metadata []"
    by (rule truncate_context_short)
qed

theorem summarization_input_witness:
  "\<lparr>filename = ''a.pdf'', markdown = replicate 6000 CHR ''a'', type = ''main''\<rparr>
     \<in> set long_documents \<and>
   length (take 5000 (replicate 6000 CHR ''a'')) \<le> 5000 \<and>
   24000 < length (all_pdf_text_loop long_documents []) \<and>
   truncate_context (all_pdf_text_loop long_documents []) =
     take 24000 (all_pdf_text_loop long_documents []) @
     ''\<newline>\<newline>[truncated due to length]\<newline>'' \<and>
   length (take 24000 (all_pdf_text_loop long_documents [])) = 24000 \<and>
   length (all_pdf_text_loop short_documents []) \<le> 24000 \<and>
   truncate_context (all_pdf_text_loop short_documents []) =
     ''\<newline>\<newline>Document: a.pdf\<newline>Hello\<newline>\<newline>''"
proof -
  have m: "\<lparr>filename = ''a.pdf'', markdown = replicate 6000 CHR ''a'', type = ''main''\<rparr>
     \<in> set long_documents"
    by (simp add: long_documents_def)
  have h: "24000 < length (all_pdf_text_loop long_documents [])"
    by (simp add: long_documents_def)
  have s: "length (all_pdf_text_loop short_documents []) \<le> 24000"
    by (simp add: short_documents_def)
  have v: "all_pdf_text_loop short_documents [] = ''\<newline>\<newline>Document: a.pdf\<newline>Hello\<newline>\<newline>''"
    by (simp add: short_documents_def)
  note long = summarization_input [of long_documents example_env "''Adam''" "''Bella''" 5 "[]"
      False initial_world]
  note short = summarization_input [of short_documents example_env "''Adam''" "''Bella''" 5 "[]"
      False initial_world]
  from long m have "length (take 5000 (replicate 6000 CHR ''a'')) \<le> 5000" by simp
  moreover from long h have "truncate_context (all_pdf_text_loop long_documents []) =
     take 24000 (all_pdf_text_loop long_documents []) @
     ''\<newline>\<newline>[truncated due to length]\<newline>''"
    and "length (take 24000 (all_pdf_text_loop long_documents [])) = 24000"
    by blast+
  moreover from short s have "truncate_context (all_pdf_text_loop short_documents []) =
     ''\<newline>\<newline>Document: a.pdf\<newline>Hello\<newline>\<newline>''"
    unfolding v by blast
  ultimately show ?thesis using m h s by blast
qed

section \<open>Properties of the document ingestor\<close>

lemma bindW_Inr:
  assumes "bindW m f w = (Inr r, w')"
  obtains x w1 where "m w = (Inr x, w1)" and "f x w1 = (Inr r, w')"
proof (cases "m w")
  case (Pair a w1)
  show ?thesis
  proof (cases a)
    case (Inl err)
    with Pair assms show ?thesis by (simp add: bindW_def)
  next
    case (Inr x)
    with Pair assms that show ?thesis by (simp add: bindW_def)
  qed
qed

lemma call_Inr:
  assumes "call ev service w = (Inr x, w1)"
  shows "service w = Inr x" and "w1 = w\<lparr>trace := trace w @ [ev]\<rparr>"
  using assms by (auto simp: call_def)

lemma download_Inr:
  assumes "download e url p w = (Inr u, w1)"
  obtains content where "requests_get e w url = Inr content"
    and "w1 = w\<lparr>files := (files w)(absolute (cwd e) p \<mapsto> content),
                 trace := trace w @ [HttpGet url, WriteFile (absolute (cwd e) p) content]\<rparr>"
proof -
  from assms obtain content w0 where
    c: "call (HttpGet url) (\<lambda>w. requests_get e w url) w = (Inr content, w0)"
    and wr: "write_bytes e p content w0 = (Inr u, w1)"
    unfolding download_def by (rule bindW_Inr)
  from call_Inr [OF c] have g: "requests_get e w url = Inr content"
    and w0: "w0 = w\<lparr>trace := trace w @ [HttpGet url]\<rparr>" by simp_all
  from wr w0 have "w1 = w\<lparr>files := (files w)(absolute (cwd e) p \<mapsto> content),
                 trace := trace w @ [HttpGet url, WriteFile (absolute (cwd e) p) content]\<rparr>"
    by (auto simp: write_bytes_def)
  with g that show ?thesis by blast
qed

lemma read_text_Inr:
  assumes "read_text e p w = (Inr t, w1)"
  obtains content where "files w (absolute (cwd e) p) = Some content"
    and "decode_text e content = Inr t" and "w1 = w"
  using assms by (auto simp: read_text_def split: option.splits)

text \<open>One round of the ingestion loop, when it succeeds.\<close>

lemma process_pdfs_step:
  assumes "process_pdfs_loop e n i (p # rest) acc w = (Inr res, w')"
  obtains url content md w1 w2 w3 where
    "pdf_extractor e w1 p = Inr url" and "requests_get e w2 url = Inr content"
    and "decode_text e content = Inr md"
    and "process_pdfs_loop e n (Suc i) rest
           (acc @ [\<lparr>filename = path_name p, markdown = md,
                     type = (if i = 0 then ''main'' else ''context'')\<rparr>]) w3 = (Inr res, w')"
proof -
  from assms obtain u0 w1 where
    p: "print (''Processing PDF '' @ str_of_nat (i + 1) @ ''/'' @ str_of_nat n @ '': '' @
               path_name p) w = (Inr u0, w1)"
    and r1: "bindW (call (PdfExtract p) (\<lambda>w. pdf_extractor e w p)) (\<lambda>markdown_url.
     bindW (download e markdown_url ''/tmp/result.md'') (\<lambda>_.
     bindW (read_text e ''/tmp/result.md'') (\<lambda>md.
     process_pdfs_loop e n (Suc i) rest
       (acc @ [\<lparr>filename = path_name p, markdown = md,
                    type = (if i = 0 then ''main'' else ''context'')\<rparr>])))) w1 = (Inr res, w')"
    unfolding process_pdfs_loop.simps by (rule bindW_Inr)
  from r1 obtain url w2 where
    c: "call (PdfExtract p) (\<lambda>w. pdf_extractor e w p) w1 = (Inr url, w2)"
    and r2: "bindW (download e url ''/tmp/result.md'') (\<lambda>_.
     bindW (read_text e ''/tmp/result.md'') (\<lambda>md.
     process_pdfs_loop e n (Suc i) rest
       (acc @ [\<lparr>filename = path_name p, markdown = md,
                    type = (if i = 0 then ''main'' else ''context'')\<rparr>]))) w2 = (Inr res, w')"
    by (rule bindW_Inr)
  from r2 obtain u1 w3 where
    d: "download e url ''/tmp/result.md'' w2 = (Inr u1, w3)"
    and r3: "bindW (read_text e ''/tmp/result.md'') (\<lambda>md.
     process_pdfs_loop e n (Suc i) rest
       (acc @ [\<lparr>filename = path_name p, markdown = md,
                    type = (if i = 0 then ''main'' else ''context'')\<rparr>])) w3 = (Inr res, w')"
    by (rule bindW_Inr)
  from r3 obtain md w4 where
    t: "read_text e ''/tmp/result.md'' w3 = (Inr md, w4)"
    and r4: "process_pdfs_loop e n (Suc i) rest
       (acc @ [\<lparr>filename = path_name p, markdown = md,
                    type = (if i = 0 then ''main'' else ''context'')\<rparr>]) w4 = (Inr res, w')"
    by (rule bindW_Inr)
  from d obtain content where g: "requests_get e w2 url = Inr content"
    and w3: "w3 = w2\<lparr>files := (files w2)(absolute (cwd e) ''/tmp/result.md'' \<mapsto> content),
                 trace := trace w2 @ [HttpGet url,
                   WriteFile (absolute (cwd e) ''/tmp/result.md'') content]\<rparr>"
    by (rule download_Inr)
  from t obtain c' where "files w3 (absolute (cwd e) ''/tmp/result.md'') = Some c'"
    and dec: "decode_text e c' = Inr md" by (rule read_text_Inr)
  with w3 have "c' = content" by simp
  with dec have "decode_text e content = Inr md" by simp
  with call_Inr(1) [OF c] g r4 that show ?thesis by blast
qed

lemma process_pdfs_loop_shape:
  assumes "process_pdfs_loop e n i ps acc w = (Inr res, w')"
  shows "length res = length acc + length ps \<and>
         (\<forall>k < length acc. res ! k = acc ! k) \<and>
         (\<forall>k < length ps.
            filename (res ! (length acc + k)) = path_name (ps ! k) \<and>
            type (res ! (length acc + k)) = (if i + k = 0 then ''main'' else ''context'') \<and>
            (\<exists>w1 url w2 content.
               pdf_extractor e w1 (ps ! k) = Inr url \<and> requests_get e w2 url = Inr content \<and>
               decode_text e content = Inr (markdown (res ! (length acc + k)))))"
  using assms
proof (induction ps arbitrary: i acc w)
  case Nil
  then show ?case by (simp add: returnW_def)
next
  case (Cons p rest)
  from Cons.prems obtain url content md w1 w2 w3 where
    x: "pdf_extractor e w1 p = Inr url" and g: "requests_get e w2 url = Inr content"
    and dec: "decode_text e content = Inr md"
    and lp: "process_pdfs_loop e n (Suc i) rest
           (acc @ [\<lparr>filename = path_name p, markdown = md,
                     type = (if i = 0 then ''main'' else ''context'')\<rparr>]) w3 = (Inr res, w')"
    by (rule process_pdfs_step)
  let ?entry = "\<lparr>filename = path_name p, markdown = md,
                     type = (if i = 0 then ''main'' else ''context'')\<rparr>"
  note ih = Cons.IH [OF lp]
  from ih have len: "length res = length acc + length (p # rest)" by simp
  from ih have keep: "\<forall>k < Suc (length acc). res ! k = (acc @ [?entry]) ! k" by simp
  have old: "\<forall>k < length acc. res ! k = acc ! k"
  proof (intro allI impI)
    fix k assume "k < length acc"
    then show "res ! k = acc ! k" using keep by (simp add: nth_append)
  qed
  have new: "res ! length acc = ?entry" using keep by (simp add: nth_append)
  have each: "\<forall>k < length (p # rest).
            filename (res ! (length acc + k)) = path_name ((p # rest) ! k) \<and>
            type (res ! (length acc + k)) = (if i + k = 0 then ''main'' else ''context'') \<and>
            (\<exists>w1 url w2 content.
               pdf_extractor e w1 ((p # rest) ! k) = Inr url \<and>
               requests_get e w2 url = Inr content \<and>
               decode_text e content = Inr (markdown (res ! (length acc + k))))"
  proof (intro allI impI)
    fix k assume k: "k < length (p # rest)"
    show "filename (res ! (length acc + k)) = path_name ((p # rest) ! k) \<and>
            type (res ! (length acc + k)) = (if i + k = 0 then ''main'' else ''context'') \<and>
            (\<exists>w1 url w2 content.
               pdf_extractor e w1 ((p # rest) ! k) = Inr url \<and>
               requests_get e w2 url = Inr content \<and>
               decode_text e content = Inr (markdown (res ! (length acc + k))))"
    proof (cases k)
      case 0
      with new x g dec show ?thesis by auto
    next
      case (Suc j)
      with k have "j < length rest" by simp
      with ih have "filename (res ! (length (acc @ [?entry]) + j)) = path_name (rest ! j) \<and>
            type (res ! (length (acc @ [?entry]) + j)) =
              (if Suc i + j = 0 then ''main'' else ''context'') \<and>
            (\<exists>w1 url w2 content.
               pdf_extractor e w1 (rest ! j) = Inr url \<and> requests_get e w2 url = Inr content \<and>
               decode_text e content = Inr (markdown (res ! (length (acc @ [?entry]) + j))))"
        by blast
      with Suc show ?thesis by simp
    qed
  qed
  from len old each show ?case by blast
qed

lemma process_pdfs_loop_returns:
  assumes "\<forall>w p. \<exists>url. pdf_extractor e w p = Inr url"
    and "\<forall>w u. \<exists>content. requests_get e w u = Inr content"
    and "\<forall>content. \<exists>t. decode_text e content = Inr t"
  shows "\<exists>res w'. process_pdfs_loop e n i ps acc w = (Inr res, w')"
proof (induction ps arbitrary: i acc w)
  case Nil
  show ?case by (simp add: returnW_def)
next
  case (Cons p rest)
  let ?w1 = "w\<lparr>trace := trace w @ [Print (''Processing PDF '' @ str_of_nat (i + 1) @ ''/'' @
               str_of_nat n @ '': '' @ path_name p)]\<rparr>"
  from assms(1) obtain url where x: "pdf_extractor e ?w1 p = Inr url" by blast
  let ?w2 = "?w1\<lparr>trace := trace ?w1 @ [PdfExtract p]\<rparr>"
  from assms(2) obtain content where g: "requests_get e ?w2 url = Inr content" by blast
  let ?w3 = "?w2\<lparr>files := (files ?w2)(absolute (cwd e) ''/tmp/result.md'' \<mapsto> content),
                 trace := trace ?w2 @ [HttpGet url,
                   WriteFile (absolute (cwd e) ''/tmp/result.md'') content]\<rparr>"
  from assms(3) obtain md where dec: "decode_text e content = Inr md" by blast
  have "process_pdfs_loop e n i (p # rest) acc w =
      process_pdfs_loop e n (Suc i) rest
        (acc @ [\<lparr>filename = path_name p, markdown = md,
                  type = (if i = 0 then ''main'' else ''context'')\<rparr>]) ?w3"
    using x g dec
    by (simp add: bindW_def print_def emit_def call_def download_def write_bytes_def
          read_text_def)
  then show ?case using Cons.IH by simp
qed

text \<open>
  Claim C3: whenever \<open>process_pdfs\<close> returns for a list of \<open>N\<close> paths, it returns exactly
  \<open>N\<close> entries; entry \<open>k\<close> carries the name of path \<open>k\<close> and the text extracted, downloaded
  and decoded for path \<open>k\<close>; entry 0 has type "main" and every other entry type
  "context". It does return whenever the extraction model, the download and the
  decoding answer.
\<close>

theorem process_pdfs_order:
  "(\<forall>results w'. process_pdfs e pdfs w = (Inr results, w') \<longrightarrow>
      length results = length pdfs \<and>
      (\<forall>k < length pdfs.
         filename (results ! k) = path_name (pdfs ! k) \<and>
         type (results ! k) = (if k = 0 then ''main'' else ''context'') \<and>
         (\<exists>w1 url w2 content.
            pdf_extractor e w1 (pdfs ! k) = Inr url \<and> requests_get e w2 url = Inr content \<and>
            decode_text e content = Inr (markdown (results ! k))))) \<and>
   ((\<forall>w p. \<exists>url. pdf_extractor e w p = Inr url) \<and>
    (\<forall>w u. \<exists>content. requests_get e w u = Inr content) \<and>
    (\<forall>content. \<exists>t. decode_text e content = Inr t) \<longrightarrow>
      (\<exists>results w'. process_pdfs e pdfs w = (Inr results, w')))"
proof (rule conjI)
  show "\<forall>results w'. process_pdfs e pdfs w = (Inr results, w') \<longrightarrow>
      length results = length pdfs \<and>
      (\<forall>k < length pdfs.
         filename (results ! k) = path_name (pdfs ! k) \<and>
         type (results ! k) = (if k = 0 then ''main'' else ''context'') \<and>
         (\<exists>w1 url w2 content.
            pdf_extractor e w1 (pdfs ! k) = Inr url \<and> requests_get e w2 url = Inr content \<and>
            decode_text e content = Inr (markdown (results ! k))))"
  proof (intro allI impI)
    fix results w'
    assume r: "process_pdfs e pdfs w = (Inr results, w')"
    from process_pdfs_loop_shape [OF r [unfolded process_pdfs_def]]
    show "length results = length pdfs \<and>
      (\<forall>k < length pdfs.
         filename (results ! k) = path_name (pdfs ! k) \<and>
         type (results ! k) = (if k = 0 then ''main'' else ''context'') \<and>
         (\<exists>w1 url w2 content.
            pdf_extractor e w1 (pdfs ! k) = Inr url \<and> requests_get e w2 url = Inr content \<and>
            decode_text e content = Inr (markdown (results ! k))))"
      by simp
  qed
  show "(\<forall>w p. \<exists>url. pdf_extractor e w p = Inr url) \<and>
    (\<forall>w u. \<exists>content. requests_get e w u = Inr content) \<and>
    (\<forall>content. \<exists>t. decode_text e content = Inr t) \<longrightarrow>
      (\<exists>results w'. process_pdfs e pdfs w = (Inr results, w'))"
    unfolding process_pdfs_def using process_pdfs_loop_returns by blast
qed

lemma example_ingest:
  "fst (process_pdfs example_env example_pdfs initial_world) =
     Inr [\<lparr>filename = ''paper.pdf'', markdown = ''content of https://files/paper.pdf.md'',
           type = ''main''\<rparr>,
          \<lparr>filename = ''notes.pdf'', markdown = ''content of https://files/notes.pdf.md'',
           type = ''context''\<rparr>]"
  by (simp add: process_pdfs_def example_pdfs_def example_env_def initial_world_def
      bindW_def print_def emit_def call_def download_def write_bytes_def read_text_def
      returnW_def path_name_def absolute_def)

theorem process_pdfs_order_witness:
  "fst (process_pdfs example_env example_pdfs initial_world) =
     Inr [\<lparr>filename = ''paper.pdf'', markdown = ''content of https://files/paper.pdf.md'',
           type = ''main''\<rparr>,
          \<lparr>filename = ''notes.pdf'', markdown = ''content of https://files/notes.pdf.md'',
           type = ''context''\<rparr>] \<and>
   length example_pdfs = 2 \<and>
   (\<exists>results w'. process_pdfs example_env example_pdfs initial_world = (Inr results, w') \<and>
      length results = 2 \<and>
      filename (results ! 0) = ''paper.pdf'' \<and> type (results ! 0) = ''main'' \<and>
      filename (results ! 1) = ''notes.pdf'' \<and> type (results ! 1) = ''context'') \<and>
   (\<forall>w p. \<exists>url. pdf_extractor example_env w p = Inr url) \<and>
   (\<forall>w u. \<exists>content. requests_get example_env w u = Inr content) \<and>
   (\<forall>content. \<exists>t. decode_text example_env content = Inr t)"
proof -
  have rel: "(\<forall>w p. \<exists>url. pdf_extractor example_env w p = Inr url) \<and>
    (\<forall>w u. \<exists>content. requests_get example_env w u = Inr content) \<and>
    (\<forall>content. \<exists>t. decode_text example_env content = Inr t)"
    by (simp add: example_env_def)
  note t = process_pdfs_order [of example_env example_pdfs initial_world]
  from t rel obtain results w' where
    r: "process_pdfs example_env example_pdfs initial_world = (Inr results, w')" by blast
  have len: "length example_pdfs = 2" by (simp add: example_pdfs_def)
  have k0: "(0::nat) < length example_pdfs" and k1: "(1::nat) < length example_pdfs"
    by (simp_all add: example_pdfs_def)
  from t r have all: "length results = length example_pdfs \<and>
      (\<forall>k < length example_pdfs.
         filename (results ! k) = path_name (example_pdfs ! k) \<and>
         type (results ! k) = (if k = 0 then ''main'' else ''context''))" by blast
  then have "filename (results ! 0) = path_name (example_pdfs ! 0)"
    "type (results ! 0) = ''main''"
    "filename (results ! 1) = path_name (example_pdfs ! 1)"
    "type (results ! 1) = ''context''"
    using k0 k1 by auto
  then have "filename (results ! 0) = ''paper.pdf''" "type (results ! 0) = ''main''"
    "filename (results ! 1) = ''notes.pdf''" "type (results ! 1) = ''context''"
    by (simp_all add: example_pdfs_def path_name_def)
  with r all len have "\<exists>results w'.
      process_pdfs example_env example_pdfs initial_world = (Inr results, w') \<and>
      length results = 2 \<and>
      filename (results ! 0) = ''paper.pdf'' \<and> type (results ! 0) = ''main'' \<and>
      filename (results ! 1) = ''notes.pdf'' \<and> type (results ! 1) = ''context''"
    by auto
  with example_ingest len rel show ?thesis by blast
qed

section \<open>Properties of the pipeline\<close>

lemma bindE_fails: "(\<And>x. \<exists>err. f x = Inl err) \<Longrightarrow> \<exists>err. bindE m f = Inl err"
  by (cases m) (simp_all add: bindE_def)

lemma parse_conversation_missing_key:
  assumes "map_of members ''title'' = None \<or> map_of members ''summary'' = None \<or>
           map_of members ''lines'' = None"
  shows "\<exists>err. parse_conversation (JObj members) = Inl err"
proof (cases "map_of members ''lines''")
  case None
  then show ?thesis by (simp add: parse_conversation_def bindE_def)
next
  case (Some ls)
  from Some assms have tail: "\<exists>err.
      bindE (subscript (JObj members) ''title'') (\<lambda>t.
      bindE (subscript (JObj members) ''summary'') (\<lambda>s.
      Inr \<lparr>title = t, summary = s, lines = entries\<rparr>)) = Inl err" for entries
    by (cases "map_of members ''title''") (auto simp: bindE_def)
  show ?thesis
    unfolding parse_conversation_def
    by (intro bindE_fails tail)
qed

lemma decode_fails:
  assumes "\<not> str_contains ''```'' reply"
    and "(\<exists>err. json_loads e reply = Inl err) \<or>
         (\<exists>members. json_loads e reply = Inr (JObj members) \<and>
            (map_of members ''title'' = None \<or> map_of members ''summary'' = None \<or>
             map_of members ''lines'' = None))"
  shows "\<exists>err. bindW (liftW (extract_json reply)) (\<lambda>json_content.
           bindW (liftW (json_loads e json_content)) (\<lambda>conversation_data.
           liftW (parse_conversation conversation_data))) w = (Inl err, w)"
proof -
  have x: "extract_json reply = Inr reply" using assms(1) by (rule extract_json_bare)
  from assms(2) show ?thesis
  proof
    assume "\<exists>err. json_loads e reply = Inl err"
    then obtain err where "json_loads e reply = Inl err" by blast
    with x show ?thesis by (simp add: bindW_def liftW_def)
  next
    assume "\<exists>members. json_loads e reply = Inr (JObj members) \<and>
            (map_of members ''title'' = None \<or> map_of members ''summary'' = None \<or>
             map_of members ''lines'' = None)"
    then obtain members where l: "json_loads e reply = Inr (JObj members)"
      and m: "map_of members ''title'' = None \<or> map_of members ''summary'' = None \<or>
             map_of members ''lines'' = None" by blast
    from parse_conversation_missing_key [OF m] obtain err where
      "parse_conversation (JObj members) = Inl err" by blast
    with x l show ?thesis by (simp add: bindW_def liftW_def)
  qed
qed

lemma bindW_call:
  "bindW (call ev service) f w =
     (case service w of
        Inl err \<Rightarrow> (Inl err, w\<lparr>trace := trace w @ [ev]\<rparr>)
      | Inr x \<Rightarrow> f x (w\<lparr>trace := trace w @ [ev]\<rparr>))"
  by (simp add: bindW_def call_def split: sum.splits)

lemma bindW_print: "bindW (print s) f w = f () (w\<lparr>trace := trace w @ [Print s]\<rparr>)"
  by (simp add: bindW_def print_def emit_def)

text \<open>
  When the three generation requests are answered, the planner's result is the decoding
  of the third reply, in the world after the third reply was printed.
\<close>

lemma content_stage_decode:
  assumes "p1 = summary_prompt (truncate_context (all_pdf_text_loop pdf_metadata []))"
    and "llm e w1 p1 = Inr summ"
    and "w2 = w1\<lparr>trace := trace w1 @ [Llm p1, Print ''<<< PDF summary >>>'', Print summ]\<rparr>"
    and "p2 = outline_prompt summ host_name guest_name duration_minutes podcast_topic monologue"
    and "llm e w2 p2 = Inr outline"
    and "w3 = w2\<lparr>trace := trace w2 @ [Llm p2, Print ''<<< Podcast outline >>>'', Print outline]\<rparr>"
    and "p3 = (if monologue then monologue_prompt outline summ host_name duration_minutes
               else dialogue_prompt outline summ host_name guest_name duration_minutes)"
    and "llm e w3 p3 = Inr reply"
    and "w4 = w3\<lparr>trace := trace w3 @ [Llm p3, Print ''<<< Podcast content >>>'', Print reply]\<rparr>"
  shows "generate_podcast_content e pdf_metadata host_name guest_name duration_minutes
           podcast_topic monologue w1 =
        bindW (liftW (extract_json reply)) (\<lambda>json_content.
           bindW (liftW (json_loads e json_content)) (\<lambda>conversation_data.
           liftW (parse_conversation conversation_data))) w4"
  using assms(2,5,8)
  unfolding assms(1,3,4,6,7,9) generate_podcast_content_def Let_def
  by (simp add: bindW_call bindW_print)

lemma decode_fails_with:
  assumes "\<not> str_contains ''```'' reply" and "json_loads e reply = Inl err"
  shows "bindW (liftW (extract_json reply)) (\<lambda>json_content.
           bindW (liftW (json_loads e json_content)) (\<lambda>conversation_data.
           liftW (parse_conversation conversation_data))) w = (Inl err, w)"
  using assms extract_json_bare [OF assms(1)] by (simp add: bindW_def liftW_def)

lemma pipeline_stops_at_planner:
  assumes "process_pdfs e pdfs w = (Inr pdf_metadata, w1)"
    and "generate_podcast_content e pdf_metadata host_name guest_name duration_minutes
           podcast_topic monologue w1 = (Inl err, w')"
  shows "pdf_to_podcast e pdfs host_name guest_name host_voice guest_voice duration_minutes
           podcast_topic monologue w = (Inl err, w')"
  using assms by (simp add: pdf_to_podcast_def bindW_def)

lemma no_synthesis_before_audio:
  assumes "process_pdfs e pdfs w = (r1, w1)"
    and "generate_podcast_content e pdf_metadata host_name guest_name duration_minutes
           podcast_topic monologue w1 = (r2, w2)"
  shows "list_all (\<lambda>ev. \<not> is_synthesis ev) (drop (length (trace w)) (trace w2))"
proof -
  from emitsD [OF emits_process_pdfs, of e pdfs w] assms(1) obtain evs1 where
    a: "trace w1 = trace w @ evs1" "list_all (\<lambda>ev. \<not> is_synthesis ev) evs1" by auto
  from emitsD [OF emits_generate_podcast_content, of e pdf_metadata host_name guest_name
      duration_minutes podcast_topic monologue w1] assms(2) obtain evs2 where
    b: "trace w2 = trace w1 @ evs2" "list_all (\<lambda>ev. \<not> is_synthesis ev) evs2" by auto
  from a b show ?thesis by simp
qed

text \<open>
  Claim C5: take a run in which ingestion and the three generation requests succeed,
  and the third reply holds no fence marker and either is no valid JSON or decodes to
  an object without one of the keys \<open>title\<close>, \<open>summary\<close>, \<open>lines\<close>. Then
  \<open>generate_podcast_content\<close> raises (the decoder's own error when the JSON is invalid),
  \<open>pdf_to_podcast\<close> ends with that same error in that same world, without calling
  \<open>generate_audio\<close>, and no synthesis request was dispatched during the run.
\<close>

theorem decode_failure_aborts_before_synthesis:
  assumes "process_pdfs e pdfs w = (Inr pdf_metadata, w1)"
    and "p1 = summary_prompt (truncate_context (all_pdf_text_loop pdf_metadata []))"
    and "llm e w1 p1 = Inr summ"
    and "w2 = w1\<lparr>trace := trace w1 @ [Llm p1, Print ''<<< PDF summary >>>'', Print summ]\<rparr>"
    and "p2 = outline_prompt summ host_name guest_name duration_minutes podcast_topic monologue"
    and "llm e w2 p2 = Inr outline"
    and "w3 = w2\<lparr>trace := trace w2 @ [Llm p2, Print ''<<< Podcast outline >>>'', Print outline]\<rparr>"
    and "p3 = (if monologue then monologue_prompt outline summ host_name duration_minutes
               else dialogue_prompt outline summ host_name guest_name duration_minutes)"
    and "llm e w3 p3 = Inr reply"
    and "w4 = w3\<lparr>trace := trace w3 @ [Llm p3, Print ''<<< Podcast content >>>'', Print reply]\<rparr>"
    and "\<not> str_contains ''```'' reply"
    and "(\<exists>err. json_loads e reply = Inl err) \<or>
         (\<exists>members. json_loads e reply = Inr (JObj members) \<and>
            (map_of members ''title'' = None \<or> map_of members ''summary'' = None \<or>
             map_of members ''lines'' = None))"
  shows "(\<exists>err.
            generate_podcast_content e pdf_metadata host_name guest_name duration_minutes
              podcast_topic monologue w1 = (Inl err, w4) \<and>
            pdf_to_podcast e pdfs host_name guest_name host_voice guest_voice duration_minutes
              podcast_topic monologue w = (Inl err, w4) \<and>
            (\<forall>err'. json_loads e reply = Inl err' \<longrightarrow> err = err')) \<and>
         list_all (\<lambda>ev. \<not> is_synthesis ev) (drop (length (trace w)) (trace w4))"
proof -
  note dec = content_stage_decode [OF assms(2-10)]
  from decode_fails [OF assms(11,12), of w4] dec obtain err where
    g: "generate_podcast_content e pdf_metadata host_name guest_name duration_minutes
              podcast_topic monologue w1 = (Inl err, w4)" by auto
  have p: "pdf_to_podcast e pdfs host_name guest_name host_voice guest_voice duration_minutes
              podcast_topic monologue w = (Inl err, w4)"
    by (rule pipeline_stops_at_planner [OF assms(1) g])
  have u: "\<forall>err'. json_loads e reply = Inl err' \<longrightarrow> err = err'"
  proof (intro allI impI)
    fix err' assume l: "json_loads e reply = Inl err'"
    from decode_fails_with [OF assms(11) l, of w4] g dec show "err = err'" by simp
  qed
  have n: "list_all (\<lambda>ev. \<not> is_synthesis ev) (drop (length (trace w)) (trace w4))"
    by (rule no_synthesis_before_audio [OF assms(1) g])
  from g p u n show ?thesis by blast
qed

lemma example_ingest_pair:
  "process_pdfs example_env example_pdfs initial_world =
     (Inr example_metadata, snd (process_pdfs example_env example_pdfs initial_world))"
  using example_ingest unfolding example_metadata_def by (metis prod.collapse)

lemma empty_object_ingest_pair:
  "process_pdfs empty_object_env example_pdfs initial_world =
     (Inr example_metadata, snd (process_pdfs empty_object_env example_pdfs initial_world))"
proof -
  have "fst (process_pdfs empty_object_env example_pdfs initial_world) = Inr example_metadata"
    by (simp add: process_pdfs_def example_pdfs_def example_env_def empty_object_env_def
      initial_world_def example_metadata_def
      bindW_def print_def emit_def call_def download_def write_bytes_def read_text_def
      returnW_def path_name_def absolute_def)
  then show ?thesis by (metis prod.collapse)
qed

theorem decode_failure_aborts_before_synthesis_witness:
  "fst (process_pdfs example_env example_pdfs initial_world) = Inr example_metadata \<and>
   \<not> str_contains ''```'' ''I cannot help with that.'' \<and>
   json_loads example_env ''I cannot help with that.'' = Inl JSONDecodeError \<and>
   fst (pdf_to_podcast example_env example_pdfs ''Adam'' ''Bella'' ''Patient_Man''
          ''Wise_Woman'' 5 [] False initial_world) = Inl JSONDecodeError \<and>
   list_all (\<lambda>ev. \<not> is_synthesis ev)
     (drop (length (trace initial_world))
        (trace (snd (pdf_to_podcast example_env example_pdfs ''Adam'' ''Bella'' ''Patient_Man''
          ''Wise_Woman'' 5 [] False initial_world)))) \<and>
   \<not> str_contains ''```'' ''{}'' \<and>
   json_loads empty_object_env ''{}'' = Inr (JObj []) \<and>
   map_of ([] :: (string \<times> json) list) ''lines'' = None \<and>
   (\<exists>err. fst (pdf_to_podcast empty_object_env example_pdfs ''Adam'' ''Bella'' ''Patient_Man''
          ''Wise_Woman'' 5 [] True initial_world) = Inl err) \<and>
   list_all (\<lambda>ev. \<not> is_synthesis ev)
     (drop (length (trace initial_world))
        (trace (snd (pdf_to_podcast empty_object_env example_pdfs ''Adam'' ''Bella''
          ''Patient_Man'' ''Wise_Woman'' 5 [] True initial_world))))"
proof -
  have a1: "\<not> str_contains ''```'' ''I cannot help with that.''" by simp
  have a2: "json_loads example_env ''I cannot help with that.'' = Inl JSONDecodeError"
    by (simp add: example_env_def)
  have a3: "llm example_env w p = Inr ''I cannot help with that.''" for w p
    by (simp add: example_env_def)
  have a4: "(\<exists>err. json_loads example_env ''I cannot help with that.'' = Inl err) \<or>
         (\<exists>members. json_loads example_env ''I cannot help with that.'' = Inr (JObj members) \<and>
            (map_of members ''title'' = None \<or> map_of members ''summary'' = None \<or>
             map_of members ''lines'' = None))"
    using a2 by blast
  from decode_failure_aborts_before_synthesis
    [OF example_ingest_pair refl a3 refl refl a3 refl refl a3 refl a1 a4,
     of "''Adam''" "''Bella''" 5 "[]" False "''Patient_Man''" "''Wise_Woman''"] a2
  have r1: "fst (pdf_to_podcast example_env example_pdfs ''Adam'' ''Bella'' ''Patient_Man''
          ''Wise_Woman'' 5 [] False initial_world) = Inl JSONDecodeError"
    and r2: "list_all (\<lambda>ev. \<not> is_synthesis ev)
     (drop (length (trace initial_world))
        (trace (snd (pdf_to_podcast example_env example_pdfs ''Adam'' ''Bella'' ''Patient_Man''
          ''Wise_Woman'' 5 [] False initial_world))))"
    by auto
  have b1: "\<not> str_contains ''```'' ''{}''" by simp
  have b2: "json_loads empty_object_env ''{}'' = Inr (JObj [])"
    by (simp add: example_env_def empty_object_env_def)
  have b3: "llm empty_object_env w p = Inr ''{}''" for w p
    by (simp add: empty_object_env_def)
  have b5: "map_of ([] :: (string \<times> json) list) ''lines'' = None" by simp
  have b4: "(\<exists>err. json_loads empty_object_env ''{}'' = Inl err) \<or>
         (\<exists>members. json_loads empty_object_env ''{}'' = Inr (JObj members) \<and>
            (map_of members ''title'' = None \<or> map_of members ''summary'' = None \<or>
             map_of members ''lines'' = None))"
    using b2 b5 by blast
  from decode_failure_aborts_before_synthesis
    [OF empty_object_ingest_pair refl b3 refl refl b3 refl refl b3 refl b1 b4,
     of "''Adam''" "''Bella''" 5 "[]" True "''Patient_Man''" "''Wise_Woman''"]
  have s1: "\<exists>err. fst (pdf_to_podcast empty_object_env example_pdfs ''Adam'' ''Bella''
          ''Patient_Man'' ''Wise_Woman'' 5 [] True initial_world) = Inl err"
    and s2: "list_all (\<lambda>ev. \<not> is_synthesis ev)
     (drop (length (trace initial_world))
        (trace (snd (pdf_to_podcast empty_object_env example_pdfs ''Adam'' ''Bella''
          ''Patient_Man'' ''Wise_Woman'' 5 [] True initial_world))))"
    by auto
  from example_ingest_pair have i: "fst (process_pdfs example_env example_pdfs initial_world) =
      Inr example_metadata" by (metis fst_conv)
  from i a1 a2 r1 r2 b1 b2 b5 s1 s2 show ?thesis by blast
qed

section \<open>Properties of the audio synthesizer and assembler\<close>






















end
